theory Spec2Isabelle
  imports Main "HOL-Library.Word" "HOL-Library.AList"
begin

section \<open>The collaborators of table.cpp\<close>

text \<open>
  \<^verbatim>\<open>table.cpp\<close> implements the class \<^verbatim>\<open>perspective::Table\<close>. The enumerations, the
  assertion macro and the classes \<^verbatim>\<open>t_schema\<close>, \<^verbatim>\<open>t_column\<close>, \<^verbatim>\<open>t_data_table\<close>,
  \<^verbatim>\<open>t_gnode\<close> and \<^verbatim>\<open>t_pool\<close> are declared outside \<^verbatim>\<open>table.cpp\<close>; this section
  models what \<^verbatim>\<open>table.cpp\<close> uses of them.

  \<^verbatim>\<open>std::uint32_t\<close> is \<open>32 word\<close>. The members \<^verbatim>\<open>m_offset\<close> and \<^verbatim>\<open>m_limit\<close> are
  32-bit: \<^verbatim>\<open>m_limit\<close> stores the constructor's \<^verbatim>\<open>std::uint32_t limit\<close>, and
  \<^verbatim>\<open>m_offset\<close> is only ever combined with the \<^verbatim>\<open>std::uint32_t\<close> values
  \<^verbatim>\<open>row_count\<close>, \<^verbatim>\<open>ridx\<close> and \<^verbatim>\<open>m_limit\<close>. Values of type \<^verbatim>\<open>t_uindex\<close>
  (identifiers, positions, row counts) are \<open>nat\<close>: no claim depends on their width.
\<close>

type_synonym uint32 = "32 word"

datatype error =
    PspAbort string     \<comment> \<open>a failed \<^verbatim>\<open>PSP_VERBOSE_ASSERT\<close>, with its message\<close>
  | ConfigError         \<comment> \<open>named by the specification; nothing in \<^verbatim>\<open>table.cpp\<close> raises it\<close>
  | SchemaError         \<comment> \<open>cloning a column the batch does not have\<close>
  | ModuloByZero        \<comment> \<open>\<^verbatim>\<open>x % 0\<close>: undefined behaviour\<close>
  | EraseOutOfRange     \<comment> \<open>\<^verbatim>\<open>v.erase(v.begin() + idx)\<close> with \<^verbatim>\<open>idx >= v.size()\<close>: undefined behaviour\<close>
  | ColumnOutOfRange    \<comment> \<open>\<^verbatim>\<open>set_nth\<close> beyond the rows of a column\<close>
  | NullGnode           \<comment> \<open>dereferencing an empty \<^verbatim>\<open>m_gnode\<close>\<close>

abbreviation UninitializedError :: error where
  "UninitializedError \<equiv> PspAbort ''touching uninited object''"

definition bindE :: "error + 'a \<Rightarrow> ('a \<Rightarrow> error + 'b) \<Rightarrow> error + 'b" where
  "bindE r f = (case r of Inl e \<Rightarrow> Inl e | Inr x \<Rightarrow> f x)"

text \<open>
  Modelled from the spec: the macro \<^verbatim>\<open>PSP_VERBOSE_ASSERT(cond, msg)\<close> is defined in a
  header outside \<^verbatim>\<open>table.cpp\<close>. A failed assertion ends the call with an error; with
  the message \<^verbatim>\<open>"touching uninited object"\<close> it is the specification's
  \<open>UninitializedError\<close>.
\<close>

definition PSP_VERBOSE_ASSERT :: "bool \<Rightarrow> string \<Rightarrow> error + unit" where
  "PSP_VERBOSE_ASSERT cond msg = (if cond then Inr () else Inl (PspAbort msg))"

text \<open>
  The enumerators that \<^verbatim>\<open>table.cpp\<close> names, and one constructor for every other
  enumerator of the absent declarations.
\<close>

datatype t_dtype = DTYPE_UINT8 | DTYPE_INT32 | DTYPE_OTHER nat

datatype t_op = OP_INSERT | OP_DELETE | OP_OTHER nat

text \<open>
  A cell of a column: not yet written, a signed 32-bit integer (its value), an operation
  tag stored as a byte, or a value of a user column.
\<close>

datatype t_scalar = S_NONE | S_INT32 int | S_OP t_op | S_VAL int

record t_column =
  col_dtype :: t_dtype
  col_status_enabled :: bool
  col_data :: "t_scalar list"

text \<open>A schema: the column names and, at the same positions, their types.\<close>

record t_schema =
  sc_columns :: "string list"
  sc_types :: "t_dtype list"

text \<open>A data table: its columns by name, in schema order, and its number of rows.\<close>

record t_data_table =
  dt_columns :: "(string \<times> t_column) list"
  dt_size :: nat

text \<open>
  Modelled from the spec: \<^verbatim>\<open>t_data_table::get_schema\<close> is defined outside
  \<^verbatim>\<open>table.cpp\<close>. The schema of a table lists its columns and their types in order.
\<close>

definition get_schema_dt :: "t_data_table \<Rightarrow> t_schema" where
  "get_schema_dt dt =
     \<lparr>sc_columns = map fst (dt_columns dt),
      sc_types = map (\<lambda>p. col_dtype (snd p)) (dt_columns dt)\<rparr>"

text \<open>
  Modelled from the spec: \<^verbatim>\<open>t_schema::has_column\<close> is defined outside \<^verbatim>\<open>table.cpp\<close>.
\<close>

definition has_column :: "t_schema \<Rightarrow> string \<Rightarrow> bool" where
  "has_column s name = (name \<in> set (sc_columns s))"

text \<open>The position of a name in a list of names (the length of the list if absent).\<close>

fun index_of :: "string list \<Rightarrow> string \<Rightarrow> nat" where
  "index_of [] name = 0"
| "index_of (c # cs) name = (if c = name then 0 else Suc (index_of cs name))"

text \<open>
  Modelled from the spec: \<^verbatim>\<open>t_schema::get_colidx\<close> is defined outside \<^verbatim>\<open>table.cpp\<close>.
  It is the position of the column in the schema; \<^verbatim>\<open>table.cpp\<close> calls it for columns
  that the schema has.
\<close>

definition get_colidx :: "t_schema \<Rightarrow> string \<Rightarrow> nat" where
  "get_colidx s name = index_of (sc_columns s) name"

text \<open>
  \<^verbatim>\<open>v.erase(v.begin() + idx)\<close> of \<^verbatim>\<open>std::vector\<close>: removes the element at \<open>idx\<close>;
  undefined when there is none.
\<close>

definition erase :: "'a list \<Rightarrow> nat \<Rightarrow> error + 'a list" where
  "erase v idx = (if idx < length v then Inr (take idx v @ drop (Suc idx) v)
                  else Inl EraseOutOfRange)"

text \<open>
  A pointer to a column of a table is the column; what is written through the pointer is
  written back into the table under the column's name.
\<close>

definition put_column :: "string \<Rightarrow> t_column \<Rightarrow> t_data_table \<Rightarrow> t_data_table" where
  "put_column name c dt = dt\<lparr>dt_columns := AList.update name c (dt_columns dt)\<rparr>"

text \<open>
  Modelled from the spec: \<^verbatim>\<open>t_data_table::add_column\<close> is defined outside
  \<^verbatim>\<open>table.cpp\<close>. The batch is augmented in place with the synthetic column: the call
  returns the column of that name, appending a new one of the given type, with one unset
  cell per row of the table, when the table has none.
\<close>

definition add_column ::
  "string \<Rightarrow> t_dtype \<Rightarrow> bool \<Rightarrow> t_data_table \<Rightarrow> t_column \<times> t_data_table" where
  "add_column name dtype status_enabled dt =
     (case map_of (dt_columns dt) name of
        Some c \<Rightarrow> (c, dt)
      | None \<Rightarrow>
          (let c = \<lparr>col_dtype = dtype, col_status_enabled = status_enabled,
                    col_data = replicate (dt_size dt) S_NONE\<rparr>
           in (c, dt\<lparr>dt_columns := dt_columns dt @ [(name, c)]\<rparr>)))"

text \<open>
  Modelled from the spec: \<^verbatim>\<open>t_data_table::clone_column\<close> is defined outside
  \<^verbatim>\<open>table.cpp\<close>. It copies the value of the column, per row, verbatim under the new
  name, and fails with \<open>SchemaError\<close> when the batch lacks the column.
\<close>

definition clone_column :: "string \<Rightarrow> string \<Rightarrow> t_data_table \<Rightarrow> error + t_data_table" where
  "clone_column existing_col new_colname dt =
     (case map_of (dt_columns dt) existing_col of
        None \<Rightarrow> Inl SchemaError
      | Some c \<Rightarrow> Inr (put_column new_colname c dt))"

text \<open>
  Modelled from the spec: \<^verbatim>\<open>t_column::raw_fill\<close> is defined outside \<^verbatim>\<open>table.cpp\<close>. The
  column is uniformly filled with the value.
\<close>

definition raw_fill :: "t_column \<Rightarrow> t_scalar \<Rightarrow> t_column" where
  "raw_fill c v = c\<lparr>col_data := replicate (length (col_data c)) v\<rparr>"

text \<open>Whether a column has a row at a position.\<close>

definition in_rows :: "t_column \<Rightarrow> nat \<Rightarrow> bool" where
  "in_rows c idx = (idx < length (col_data c))"

text \<open>
  Modelled from the spec: \<^verbatim>\<open>t_column::set_nth\<close> is defined outside \<^verbatim>\<open>table.cpp\<close>.
  \<^verbatim>\<open>set_nth<std::int32_t>(idx, v)\<close> assigns the key to the row: it converts the
  \<^verbatim>\<open>std::uint32_t\<close> argument to \<^verbatim>\<open>std::int32_t\<close> (the same 32 bits, read as two's
  complement) and stores it in the cell at \<open>idx\<close>, which the caller checks with
  \<open>in_rows\<close>.
\<close>

definition set_nth_int32 :: "t_column \<Rightarrow> nat \<Rightarrow> uint32 \<Rightarrow> t_column" where
  "set_nth_int32 c idx v = c\<lparr>col_data := (col_data c)[idx := S_INT32 (sint v)]\<rparr>"

text \<open>
  A dataflow node, as far as \<^verbatim>\<open>table.cpp\<close> reads or writes it: the two schemas it was
  constructed with, in the order of the constructor's arguments, whether \<^verbatim>\<open>init()\<close>
  ran, the identifier the pool gave it, and the row count of its table (kept by the merge
  engine, which is an external collaborator).
\<close>

record t_gnode =
  gn_tblschema :: t_schema
  gn_portschema :: t_schema
  gn_inited :: bool
  gn_id :: nat
  gn_table_size :: nat

text \<open>
  The processing pool is an external collaborator: it is the record of what was asked of
  it, and the next node identifier it will give.
\<close>

datatype pool_event =
    EvRegister nat nat            \<comment> \<open>node reference, identifier given\<close>
  | EvSend nat nat t_data_table   \<comment> \<open>node identifier, port, batch\<close>
  | EvProcess
  | EvUnregister nat
  | EvReset nat

record t_pool =
  pool_next_id :: nat
  pool_log :: "pool_event list"

text \<open>
  The objects shared between a table and its pool: the nodes allocated so far (a
  \<^verbatim>\<open>std::shared_ptr<t_gnode>\<close> is \<open>Some\<close> position in this list, or \<open>None\<close> when
  empty) and the pool.
\<close>

record world =
  w_gnodes :: "t_gnode list"
  w_pool :: t_pool

text \<open>Dereferencing a node pointer: \<^verbatim>\<open>m_gnode->\<close>.\<close>

definition gnode_at :: "world \<Rightarrow> nat option \<Rightarrow> error + t_gnode" where
  "gnode_at w p =
     (case p of
        None \<Rightarrow> Inl NullGnode
      | Some a \<Rightarrow> (if a < length (w_gnodes w) then Inr (w_gnodes w ! a) else Inl NullGnode))"

text \<open>
  Modelled from the spec: the constructor of \<^verbatim>\<open>t_gnode\<close> is defined outside
  \<^verbatim>\<open>table.cpp\<close>. \<^verbatim>\<open>std::make_shared<t_gnode>(a, b)\<close> allocates a new node that keeps
  the schemas \<open>a\<close> and \<open>b\<close>, and returns its reference.
\<close>

definition make_shared_gnode :: "t_schema \<Rightarrow> t_schema \<Rightarrow> world \<Rightarrow> nat \<times> world" where
  "make_shared_gnode tblschema portschema w =
     (length (w_gnodes w),
      w\<lparr>w_gnodes := w_gnodes w @
          [\<lparr>gn_tblschema = tblschema, gn_portschema = portschema, gn_inited = False,
            gn_id = 0, gn_table_size = 0\<rparr>]\<rparr>)"

text \<open>
  Modelled from the spec: \<^verbatim>\<open>t_gnode::init\<close> is defined outside \<^verbatim>\<open>table.cpp\<close>. It
  marks the node as initialised.
\<close>

definition gnode_init :: "nat \<Rightarrow> world \<Rightarrow> world" where
  "gnode_init a w = w\<lparr>w_gnodes := (w_gnodes w)[a := (w_gnodes w ! a)\<lparr>gn_inited := True\<rparr>]\<rparr>"

text \<open>
  Modelled from the spec: \<^verbatim>\<open>t_pool::register_gnode\<close> is defined outside
  \<^verbatim>\<open>table.cpp\<close>. Registration gives the node its identifier, the one that
  \<^verbatim>\<open>m_gnode->get_id()\<close> returns afterwards, and the pool records it.
\<close>

definition register_gnode :: "nat option \<Rightarrow> world \<Rightarrow> error + world" where
  "register_gnode p w =
     (case p of
        None \<Rightarrow> Inl NullGnode
      | Some a \<Rightarrow>
          (if a < length (w_gnodes w) then
             (let gid = pool_next_id (w_pool w) in
              Inr (w\<lparr>w_gnodes := (w_gnodes w)[a := (w_gnodes w ! a)\<lparr>gn_id := gid\<rparr>],
                     w_pool := (w_pool w)\<lparr>pool_next_id := Suc gid,
                       pool_log := pool_log (w_pool w) @ [EvRegister a gid]\<rparr>\<rparr>))
           else Inl NullGnode))"

text \<open>The pool records one more request.\<close>

definition pool_event_add :: "pool_event \<Rightarrow> world \<Rightarrow> world" where
  "pool_event_add e w = w\<lparr>w_pool := (w_pool w)\<lparr>pool_log := pool_log (w_pool w) @ [e]\<rparr>\<rparr>"

text \<open>
  Modelled from the spec: \<^verbatim>\<open>t_pool::send\<close> is defined outside \<^verbatim>\<open>table.cpp\<close>. The batch
  is handed to the pool, addressed to a node identifier at a port.
\<close>

definition pool_send :: "nat \<Rightarrow> nat \<Rightarrow> t_data_table \<Rightarrow> world \<Rightarrow> world" where
  "pool_send gid port dt w = pool_event_add (EvSend gid port dt) w"

text \<open>
  Modelled from the spec: \<^verbatim>\<open>t_pool::_process\<close> is defined outside \<^verbatim>\<open>table.cpp\<close>. The
  pool is forced to process what is pending; the merge itself is the engine's.
\<close>

definition pool_process :: "world \<Rightarrow> world" where
  "pool_process w = pool_event_add EvProcess w"

section \<open>The class Table\<close>

record Table =
  m_init :: bool
  m_id :: nat
  m_pool :: nat
  m_gnode :: "nat option"
  m_column_names :: "string list"
  m_data_types :: "t_dtype list"
  m_offset :: uint32
  m_limit :: uint32
  m_index :: string
  m_gnode_set :: bool

text \<open>
  The constructor: an initialiser list and an empty body. It takes the value of
  \<^verbatim>\<open>GLOBAL_TABLE_ID\<close> and returns the table with the incremented counter.
\<close>

definition Table_new ::
  "nat \<Rightarrow> nat \<Rightarrow> string list \<Rightarrow> t_dtype list \<Rightarrow> uint32 \<Rightarrow> string \<Rightarrow> error + Table \<times> nat" where
  "Table_new GLOBAL_TABLE_ID pool column_names data_types limit index =
     Inr (\<lparr>m_init = False, m_id = GLOBAL_TABLE_ID, m_pool = pool, m_gnode = None,
           m_column_names = column_names, m_data_types = data_types,
           m_offset = 0, m_limit = limit, m_index = index, m_gnode_set = False\<rparr>,
          Suc GLOBAL_TABLE_ID)"

text \<open>
  \<^verbatim>\<open>Table::process_op_column\<close>: the pointer \<^verbatim>\<open>op_col\<close> is the column returned by
  \<open>add_column\<close>; the filled column is written back under its name.
\<close>

definition process_op_column :: "t_data_table \<Rightarrow> t_op \<Rightarrow> t_data_table" where
  "process_op_column data_table op =
     (case add_column ''psp_op'' DTYPE_UINT8 False data_table of
        (op_col, dt1) \<Rightarrow>
          (case op of
             OP_DELETE \<Rightarrow> put_column ''psp_op'' (raw_fill op_col (S_OP OP_DELETE)) dt1
           | _ \<Rightarrow> put_column ''psp_op'' (raw_fill op_col (S_OP OP_INSERT)) dt1))"

text \<open>
  The loop of \<^verbatim>\<open>Table::process_index_column\<close>, from the value \<open>ridx\<close> of its counter.
  The counter is a \<^verbatim>\<open>std::uint32_t\<close> compared with the row count of the table, so the
  loop cannot run to its end on a table of \<open>2 ^ 32\<close> rows or more: the result is an
  \<open>option\<close>, \<open>None\<close> when the loop runs forever. \<^verbatim>\<open>(ridx + m_offset) % m_limit\<close> is unsigned
  32-bit arithmetic.
\<close>

partial_function (option) fill_keys ::
  "uint32 \<Rightarrow> uint32 \<Rightarrow> nat \<Rightarrow> uint32 \<Rightarrow> t_column \<times> t_column \<Rightarrow>
   (error + t_column \<times> t_column) option" where
  "fill_keys offset limit nrows ridx cols =
     (if unat ridx < nrows then
        (if limit = 0 then Some (Inl ModuloByZero)
         else if \<not> (in_rows (fst cols) (unat ridx) \<and> in_rows (snd cols) (unat ridx))
           then Some (Inl ColumnOutOfRange)
         else fill_keys offset limit nrows (ridx + 1)
                (set_nth_int32 (fst cols) (unat ridx) ((ridx + offset) mod limit),
                 set_nth_int32 (snd cols) (unat ridx) ((ridx + offset) mod limit)))
      else Some (Inr cols))"

declare fill_keys.simps [code]

text \<open>
  \<^verbatim>\<open>Table::process_index_column\<close>: without an index column, two key columns filled by
  the loop; with one, two clones of it.
\<close>

definition process_index_column ::
  "Table \<Rightarrow> t_data_table \<Rightarrow> (error + t_data_table) option" where
  "process_index_column t data_table =
     (if m_index t = [] then
        (case add_column ''psp_pkey'' DTYPE_INT32 True data_table of
           (key_col, dt1) \<Rightarrow>
             (case add_column ''psp_okey'' DTYPE_INT32 True dt1 of
                (okey_col, dt2) \<Rightarrow>
                  (case fill_keys (m_offset t) (m_limit t) (dt_size dt2) 0 (key_col, okey_col) of
                     None \<Rightarrow> None
                   | Some (Inl e) \<Rightarrow> Some (Inl e)
                   | Some (Inr (key_col', okey_col')) \<Rightarrow>
                       Some (Inr (put_column ''psp_okey'' okey_col'
                                   (put_column ''psp_pkey'' key_col' dt2))))))
      else
        Some (bindE (clone_column (m_index t) ''psp_pkey'' data_table)
                (clone_column (m_index t) ''psp_okey'')))"

text \<open>
  \<^verbatim>\<open>Table::calculate_offset\<close>: \<^verbatim>\<open>m_offset = (m_offset + row_count) % m_limit\<close> on
  \<^verbatim>\<open>std::uint32_t\<close>; the remainder by zero is undefined.
\<close>

definition calculate_offset :: "Table \<Rightarrow> uint32 \<Rightarrow> error + Table" where
  "calculate_offset t row_count =
     (if m_limit t = 0 then Inl ModuloByZero
      else Inr (t\<lparr>m_offset := (m_offset t + row_count) mod m_limit t\<rparr>))"

text \<open>The two erasures of \<open>make_gnode\<close> at one position: the name, then the type.\<close>

definition erase_both ::
  "string list \<times> t_dtype list \<Rightarrow> nat \<Rightarrow> error + string list \<times> t_dtype list" where
  "erase_both cd idx =
     bindE (erase (fst cd) idx) (\<lambda>col_names.
     bindE (erase (snd cd) idx) (\<lambda>data_types. Inr (col_names, data_types)))"

text \<open>
  \<^verbatim>\<open>Table::make_gnode\<close>. Both positions are looked up in \<open>in_schema\<close>, the second one
  after \<open>col_names\<close> and \<open>data_types\<close> may already have lost an element. It returns
  the reference of the new node.
\<close>

definition make_gnode :: "t_schema \<Rightarrow> world \<Rightarrow> error + nat \<times> world" where
  "make_gnode in_schema w =
     bindE (if has_column in_schema ''psp_pkey''
            then erase_both (sc_columns in_schema, sc_types in_schema)
                   (get_colidx in_schema ''psp_pkey'')
            else Inr (sc_columns in_schema, sc_types in_schema)) (\<lambda>cd1.
     bindE (if has_column in_schema ''psp_op''
            then erase_both cd1 (get_colidx in_schema ''psp_op'')
            else Inr cd1) (\<lambda>cd2.
       let out_schema = \<lparr>sc_columns = fst cd2, sc_types = snd cd2\<rparr> in
       (case make_shared_gnode out_schema in_schema w of
          (gnode, w1) \<Rightarrow> Inr (gnode, gnode_init gnode w1))))"

text \<open>\<^verbatim>\<open>Table::set_gnode\<close>.\<close>

definition set_gnode :: "Table \<Rightarrow> nat option \<Rightarrow> Table" where
  "set_gnode t gnode = t\<lparr>m_gnode := gnode, m_gnode_set := True\<rparr>"

text \<open>
  \<^verbatim>\<open>Table::init\<close>. The batch is passed by reference: the result holds the table, the
  shared objects and the batch as the call leaves them.
\<close>

definition init ::
  "Table \<Rightarrow> world \<Rightarrow> t_data_table \<Rightarrow> uint32 \<Rightarrow> t_op \<Rightarrow>
   (error + Table \<times> world \<times> t_data_table) option" where
  "init t w data_table row_count op =
     (case process_index_column t (process_op_column data_table op) of
        None \<Rightarrow> None
      | Some r \<Rightarrow> Some (
          bindE r (\<lambda>dt.
          bindE (calculate_offset t row_count) (\<lambda>t1.
          bindE (if \<not> m_gnode_set t1 then
                   bindE (make_gnode (get_schema_dt dt) w) (\<lambda>(new_gnode, w1).
                     let t2 = set_gnode t1 (Some new_gnode) in
                     bindE (register_gnode (m_gnode t2) w1) (\<lambda>w2. Inr (t2, w2)))
                 else Inr (t1, w)) (\<lambda>(t2, w2).
          bindE (PSP_VERBOSE_ASSERT (m_gnode_set t2) ''gnode is not set!'') (\<lambda>_.
          bindE (gnode_at w2 (m_gnode t2)) (\<lambda>g.
            Inr (t2\<lparr>m_init := True\<rparr>, pool_send (gn_id g) 0 dt w2, dt))))))))"

text \<open>
  \<^verbatim>\<open>Table::size\<close> (the name \<open>size\<close> is taken) and \<^verbatim>\<open>Table::get_schema\<close>: after the
  assertion they read the bound node.
\<close>

definition size_tbl :: "Table \<Rightarrow> world \<Rightarrow> error + nat" where
  "size_tbl t w =
     bindE (PSP_VERBOSE_ASSERT (m_init t) ''touching uninited object'') (\<lambda>_.
     bindE (gnode_at w (m_gnode t)) (\<lambda>g. Inr (gn_table_size g)))"

definition get_schema :: "Table \<Rightarrow> world \<Rightarrow> error + t_schema" where
  "get_schema t w =
     bindE (PSP_VERBOSE_ASSERT (m_init t) ''touching uninited object'') (\<lambda>_.
     bindE (gnode_at w (m_gnode t)) (\<lambda>g. Inr (gn_tblschema g)))"

text \<open>\<^verbatim>\<open>Table::replace_data_table\<close>. The block is only read.\<close>

definition replace_data_table :: "Table \<Rightarrow> world \<Rightarrow> t_data_table \<Rightarrow> error + Table \<times> world" where
  "replace_data_table t w data_table =
     bindE (PSP_VERBOSE_ASSERT (m_init t) ''touching uninited object'') (\<lambda>_.
     bindE (make_gnode (get_schema_dt data_table) w) (\<lambda>(new_gnode, w1).
       let t1 = set_gnode t (Some new_gnode) in
       bindE (register_gnode (m_gnode t1) w1) (\<lambda>w2.
       bindE (gnode_at w2 (m_gnode t1)) (\<lambda>g.
         Inr (t1, pool_process (pool_send (gn_id g) 0 data_table w2))))))"

text \<open>
  \<^verbatim>\<open>Table::unregister_gnode\<close> and \<^verbatim>\<open>Table::reset_gnode\<close> pass the identifier on to the
  pool, which records the request.
\<close>

definition unregister_gnode :: "Table \<Rightarrow> world \<Rightarrow> nat \<Rightarrow> error + world" where
  "unregister_gnode t w gid =
     bindE (PSP_VERBOSE_ASSERT (m_init t) ''touching uninited object'') (\<lambda>_.
       Inr (pool_event_add (EvUnregister gid) w))"

definition reset_gnode :: "Table \<Rightarrow> world \<Rightarrow> nat \<Rightarrow> error + world" where
  "reset_gnode t w gid =
     bindE (PSP_VERBOSE_ASSERT (m_init t) ''touching uninited object'') (\<lambda>_.
       Inr (pool_event_add (EvReset gid) w))"

text \<open>
  The accessors. \<^verbatim>\<open>Table::get_id\<close> has no assertion; its result has the type of the
  others so that "it succeeds" can be said of all of them alike.
\<close>

definition get_id :: "Table \<Rightarrow> error + nat" where
  "get_id t = Inr (m_id t)"

definition get_pool :: "Table \<Rightarrow> error + nat" where
  "get_pool t =
     bindE (PSP_VERBOSE_ASSERT (m_init t) ''touching uninited object'') (\<lambda>_. Inr (m_pool t))"

definition get_gnode :: "Table \<Rightarrow> error + nat option" where
  "get_gnode t =
     bindE (PSP_VERBOSE_ASSERT (m_init t) ''touching uninited object'') (\<lambda>_. Inr (m_gnode t))"

definition get_column_names :: "Table \<Rightarrow> error + string list" where
  "get_column_names t =
     bindE (PSP_VERBOSE_ASSERT (m_init t) ''touching uninited object'') (\<lambda>_.
       Inr (m_column_names t))"

definition get_data_types :: "Table \<Rightarrow> error + t_dtype list" where
  "get_data_types t =
     bindE (PSP_VERBOSE_ASSERT (m_init t) ''touching uninited object'') (\<lambda>_.
       Inr (m_data_types t))"

definition get_index :: "Table \<Rightarrow> error + string" where
  "get_index t =
     bindE (PSP_VERBOSE_ASSERT (m_init t) ''touching uninited object'') (\<lambda>_. Inr (m_index t))"

text \<open>\<^verbatim>\<open>Table::set_column_names\<close> and \<^verbatim>\<open>Table::set_data_types\<close>.\<close>

definition set_column_names :: "Table \<Rightarrow> string list \<Rightarrow> Table" where
  "set_column_names t column_names = t\<lparr>m_column_names := column_names\<rparr>"

definition set_data_types :: "Table \<Rightarrow> t_dtype list \<Rightarrow> Table" where
  "set_data_types t data_types = t\<lparr>m_data_types := data_types\<rparr>"

section \<open>Sequences of calls\<close>

text \<open>
  One constructor for each member function that callers of \<^verbatim>\<open>Table\<close> can invoke.
  \<open>do_call\<close> runs one of them on a table and the objects it shares with its pool; the
  read accessors return the state as it was, or their error.
\<close>

datatype table_call =
    Call_init t_data_table uint32 t_op
  | Call_replace_data_table t_data_table
  | Call_make_gnode t_schema
  | Call_set_gnode "nat option"
  | Call_unregister_gnode nat
  | Call_reset_gnode nat
  | Call_calculate_offset uint32
  | Call_set_column_names "string list"
  | Call_set_data_types "t_dtype list"
  | Call_size
  | Call_get_schema
  | Call_get_id
  | Call_get_pool
  | Call_get_gnode
  | Call_get_column_names
  | Call_get_data_types
  | Call_get_index

fun do_call :: "table_call \<Rightarrow> Table \<times> world \<Rightarrow> (error + Table \<times> world) option" where
  "do_call (Call_init dt row_count op) (t, w) =
     (case init t w dt row_count op of
        None \<Rightarrow> None
      | Some r \<Rightarrow> Some (bindE r (\<lambda>(t', w', dt'). Inr (t', w'))))"
| "do_call (Call_replace_data_table dt) (t, w) = Some (replace_data_table t w dt)"
| "do_call (Call_make_gnode s) (t, w) =
     Some (bindE (make_gnode s w) (\<lambda>(g, w'). Inr (t, w')))"
| "do_call (Call_set_gnode g) (t, w) = Some (Inr (set_gnode t g, w))"
| "do_call (Call_unregister_gnode gid) (t, w) =
     Some (bindE (unregister_gnode t w gid) (\<lambda>w'. Inr (t, w')))"
| "do_call (Call_reset_gnode gid) (t, w) =
     Some (bindE (reset_gnode t w gid) (\<lambda>w'. Inr (t, w')))"
| "do_call (Call_calculate_offset row_count) (t, w) =
     Some (bindE (calculate_offset t row_count) (\<lambda>t'. Inr (t', w)))"
| "do_call (Call_set_column_names cn) (t, w) = Some (Inr (set_column_names t cn, w))"
| "do_call (Call_set_data_types ts) (t, w) = Some (Inr (set_data_types t ts, w))"
| "do_call Call_size (t, w) = Some (bindE (size_tbl t w) (\<lambda>_. Inr (t, w)))"
| "do_call Call_get_schema (t, w) = Some (bindE (get_schema t w) (\<lambda>_. Inr (t, w)))"
| "do_call Call_get_id (t, w) = Some (bindE (get_id t) (\<lambda>_. Inr (t, w)))"
| "do_call Call_get_pool (t, w) = Some (bindE (get_pool t) (\<lambda>_. Inr (t, w)))"
| "do_call Call_get_gnode (t, w) = Some (bindE (get_gnode t) (\<lambda>_. Inr (t, w)))"
| "do_call Call_get_column_names (t, w) =
     Some (bindE (get_column_names t) (\<lambda>_. Inr (t, w)))"
| "do_call Call_get_data_types (t, w) = Some (bindE (get_data_types t) (\<lambda>_. Inr (t, w)))"
| "do_call Call_get_index (t, w) = Some (bindE (get_index t) (\<lambda>_. Inr (t, w)))"

fun run_calls :: "table_call list \<Rightarrow> Table \<times> world \<Rightarrow> (error + Table \<times> world) option" where
  "run_calls [] s = Some (Inr s)"
| "run_calls (c # cs) s =
     (case do_call c s of
        None \<Rightarrow> None
      | Some (Inl e) \<Rightarrow> Some (Inl e)
      | Some (Inr s') \<Rightarrow> run_calls cs s')"

text \<open>A sequence of ingests: each entry is a batch, the row count passed and the tag.\<close>

definition ingests :: "(t_data_table \<times> uint32 \<times> t_op) list \<Rightarrow> table_call list" where
  "ingests bs = map (\<lambda>(dt, row_count, op). Call_init dt row_count op) bs"

text \<open>
  Values used in examples: the table that the constructor returns for an empty declared
  schema, an empty pool with no node, and batches of user columns. \<open>returned\<close> holds
  of a call that ended without error.
\<close>

definition new_table :: "nat \<Rightarrow> uint32 \<Rightarrow> string \<Rightarrow> Table" where
  "new_table g limit index =
     \<lparr>m_init = False, m_id = g, m_pool = 0, m_gnode = None, m_column_names = [],
      m_data_types = [], m_offset = 0, m_limit = limit, m_index = index,
      m_gnode_set = False\<rparr>"

definition returned :: "(error + 'a) option \<Rightarrow> bool" where
  "returned r = (case r of Some (Inr _) \<Rightarrow> True | _ \<Rightarrow> False)"

definition world0 :: world where
  "world0 = \<lparr>w_gnodes = [], w_pool = \<lparr>pool_next_id = 0, pool_log = []\<rparr>\<rparr>"

definition user_column :: "int list \<Rightarrow> t_column" where
  "user_column vs = \<lparr>col_dtype = DTYPE_OTHER 0, col_status_enabled = True,
                      col_data = map S_VAL vs\<rparr>"

definition batch :: "(string \<times> int list) list \<Rightarrow> nat \<Rightarrow> t_data_table" where
  "batch cols n = \<lparr>dt_columns = map (\<lambda>(name, vs). (name, user_column vs)) cols, dt_size = n\<rparr>"

text \<open>The cumulative row count of a sequence of ingests.\<close>

definition total_rows :: "(t_data_table \<times> uint32 \<times> t_op) list \<Rightarrow> nat" where
  "total_rows bs = sum_list (map (\<lambda>(dt, row_count, op). unat row_count) bs)"

text \<open>
  The cell that the loop of \<open>process_index_column\<close> writes in row \<open>i\<close>:
  \<^verbatim>\<open>(ridx + m_offset) % m_limit\<close> in 32 bits, converted to \<^verbatim>\<open>std::int32_t\<close>.
\<close>

definition key_cell :: "uint32 \<Rightarrow> uint32 \<Rightarrow> nat \<Rightarrow> t_scalar" where
  "key_cell off lim i = S_INT32 (sint ((of_nat i + off) mod lim))"


text \<open>A result other than the error of a modulo by zero.\<close>

definition mod0_free :: "error + 'a \<Rightarrow> bool" where
  "mod0_free r = (r \<noteq> Inl ModuloByZero)"

text \<open>
  A list of column names with their types, without the column of one name: what removing
  a column from a schema means.
\<close>

definition schema_without :: "string \<Rightarrow> string list \<times> t_dtype list \<Rightarrow> string list \<times> t_dtype list" where
  "schema_without name cd =
     (map fst (filter (\<lambda>p. fst p \<noteq> name) (zip (fst cd) (snd cd))),
      map snd (filter (\<lambda>p. fst p \<noteq> name) (zip (fst cd) (snd cd))))"

text \<open>The names of the columns of a data table, in their order.\<close>

definition column_names :: "t_data_table \<Rightarrow> string list" where
  "column_names dt = map fst (dt_columns dt)"

text \<open>
  A batch as a caller hands it to \<open>init\<close> for the first time: it has none of the
  columns \<open>psp_op\<close>, \<open>psp_pkey\<close> and \<open>psp_okey\<close> yet.
\<close>

definition fresh_batch :: "t_data_table \<Rightarrow> bool" where
  "fresh_batch dt =
     (''psp_op'' \<notin> set (column_names dt) \<and> ''psp_pkey'' \<notin> set (column_names dt) \<and>
      ''psp_okey'' \<notin> set (column_names dt))"

text \<open>
  \<open>init\<close> dereferences \<open>m_gnode\<close>; once \<open>set_gnode\<close> has run it builds no node of its
  own, so the reference must then be one of a node.
\<close>

definition node_usable :: "Table \<Rightarrow> world \<Rightarrow> bool" where
  "node_usable t w =
     (m_gnode_set t \<longrightarrow> (case gnode_at w (m_gnode t) of Inr g \<Rightarrow> True | Inl e \<Rightarrow> False))"

text \<open>
  The schemas on which the second erasure of \<open>make_gnode\<close> is at \<^verbatim>\<open>end()\<close>:
  \<open>psp_pkey\<close> is present and \<open>psp_op\<close> is the last column.
\<close>

definition erase_past_end :: "t_schema \<Rightarrow> bool" where
  "erase_past_end s =
     (has_column s ''psp_pkey'' \<and> has_column s ''psp_op'' \<and>
      Suc (get_colidx s ''psp_op'') = length (sc_columns s))"

text \<open>
  The cell in row \<open>i\<close> of a column of the batch as an ingest leaves it, when the ingest
  returned and the batch has that cell.
\<close>

definition stored_cell ::
  "(error + Table \<times> world \<times> t_data_table) option \<Rightarrow> string \<Rightarrow> nat \<Rightarrow> t_scalar option" where
  "stored_cell r name i =
     (case r of
        Some (Inr (t', w', dt')) \<Rightarrow>
          (case map_of (dt_columns dt') name of
             Some c \<Rightarrow> (if i < length (col_data c) then Some (col_data c ! i) else None)
           | None \<Rightarrow> None)
      | _ \<Rightarrow> None)"

text \<open>
  A sequence of ingests into a table with offset \<open>off\<close> and limit \<open>lim\<close> in which no
  sum \<^verbatim>\<open>m_offset + row_count\<close> of \<open>calculate_offset\<close> reaches \<open>2^32\<close>.
\<close>

fun no_wrap :: "uint32 \<Rightarrow> uint32 \<Rightarrow> (t_data_table \<times> uint32 \<times> t_op) list \<Rightarrow> bool" where
  "no_wrap off lim [] = True"
| "no_wrap off lim ((dt, row_count, op) # bs) =
     (unat off + unat row_count < 2 ^ 32 \<and> no_wrap ((off + row_count) mod lim) lim bs)"


section \<open>Basic facts\<close>

lemma bindE_Inl [simp]: "bindE (Inl e) f = Inl e"
  by (simp add: bindE_def)

lemma bindE_Inr [simp]: "bindE (Inr x) f = f x"
  by (simp add: bindE_def)

lemma bindE_eq_Inr: "bindE r f = Inr y \<longleftrightarrow> (\<exists>x. r = Inr x \<and> f x = Inr y)"
  by (cases r) simp_all

lemma bindE_eq_Inl: "bindE r f = Inl e \<longleftrightarrow> r = Inl e \<or> (\<exists>x. r = Inr x \<and> f x = Inl e)"
  by (cases r) simp_all

lemma returnedE: "returned r \<Longrightarrow> \<exists>x. r = Some (Inr x)"
  by (auto simp: returned_def split: option.splits sum.splits)

lemma new_table_constructed: "Table_new g 0 [] [] limit index = Inr (new_table g limit index, Suc g)"
  by (simp add: Table_new_def new_table_def)

lemma calculate_offset_Inr:
  "calculate_offset t rc = Inr t' \<longleftrightarrow>
     m_limit t \<noteq> 0 \<and> t' = t\<lparr>m_offset := (m_offset t + rc) mod m_limit t\<rparr>"
  by (auto simp: calculate_offset_def)

lemma make_gnode_ref:
  "make_gnode s w = Inr (g, w1) \<Longrightarrow>
     g = length (w_gnodes w) \<and> length (w_gnodes w1) = Suc (length (w_gnodes w)) \<and>
     w_pool w1 = w_pool w"
  by (auto simp: make_gnode_def bindE_eq_Inr make_shared_gnode_def gnode_init_def Let_def
      split: if_splits)

text \<open>What a successful \<open>init\<close> did, step by step.\<close>

lemma init_Inr:
  assumes "init t w dt rc op = Some (Inr (t', w', dt'))"
  shows "process_index_column t (process_op_column dt op) = Some (Inr dt')"
    and "m_limit t \<noteq> 0"
    and "m_offset t' = (m_offset t + rc) mod m_limit t"
    and "m_id t' = m_id t" and "m_limit t' = m_limit t" and "m_index t' = m_index t"
    and "m_pool t' = m_pool t" and "m_column_names t' = m_column_names t"
    and "m_data_types t' = m_data_types t" and "m_init t'" and "m_gnode_set t'"
  using assms
  by (auto simp: init_def bindE_eq_Inr calculate_offset_Inr set_gnode_def Let_def
      PSP_VERBOSE_ASSERT_def split: option.splits if_splits prod.splits)

lemma replace_data_table_frame:
  assumes "replace_data_table t w dt = Inr (t', w')"
  shows "m_init t" and "t' = set_gnode t (Some (length (w_gnodes w)))"
  using assms
  by (auto simp: replace_data_table_def bindE_eq_Inr PSP_VERBOSE_ASSERT_def Let_def
      dest: make_gnode_ref split: if_splits)

lemma do_call_frame:
  assumes "do_call c (t, w) = Some (Inr (t', w'))"
  shows "m_id t' = m_id t \<and> m_limit t' = m_limit t"
proof (cases c)
  case (Call_init dt rc op)
  with assms obtain dt' where "init t w dt rc op = Some (Inr (t', w', dt'))"
    by (auto simp: bindE_eq_Inr split: option.splits)
  then show ?thesis by (simp add: init_Inr)
next
  case (Call_replace_data_table dt)
  with assms have "replace_data_table t w dt = Inr (t', w')" by simp
  from replace_data_table_frame(2) [OF this] show ?thesis by (simp add: set_gnode_def)
qed (use assms in \<open>auto simp: bindE_eq_Inr set_gnode_def set_column_names_def
       set_data_types_def calculate_offset_Inr\<close>)

lemma run_calls_Cons_Inr:
  assumes "run_calls (c # cs) s = Some (Inr s')"
  obtains s1 where "do_call c s = Some (Inr s1)" and "run_calls cs s1 = Some (Inr s')"
  using assms by (auto split: option.splits sum.splits)

lemma run_calls_frame:
  "run_calls cs (t, w) = Some (Inr (t', w')) \<Longrightarrow> m_id t' = m_id t \<and> m_limit t' = m_limit t"
proof (induction cs arbitrary: t w)
  case Nil
  then show ?case by simp
next
  case (Cons c cs)
  from Cons.prems obtain s1 where s: "do_call c (t, w) = Some (Inr s1)"
    and r: "run_calls cs s1 = Some (Inr (t', w'))"
    by (rule run_calls_Cons_Inr)
  obtain t1 w1 where s1: "s1 = (t1, w1)" by (cases s1)
  from do_call_frame [OF s [unfolded s1]] Cons.IH [OF r [unfolded s1]] show ?case by simp
qed

section \<open>The identifier\<close>

text \<open>
  C9. \<open>get_id\<close> has no initialisation check: it returns \<open>m_id\<close> for every table,
  initialised or not. On the table that the constructor returns, which is not
  initialised, it returns the value of the global counter at construction, and after any
  sequence of calls on a table it still returns the identifier the table had before.
\<close>

theorem get_id_unguarded_and_stable:
  "get_id t = Inr (m_id t) \<and>
   (\<exists>t0. Table_new g p cn ts lim idx = Inr (t0, Suc g) \<and> \<not> m_init t0 \<and> get_id t0 = Inr g) \<and>
   (run_calls cs (t, w) = Some (Inr (t', w')) \<longrightarrow> get_id t' = Inr (m_id t))"
  by (auto simp: get_id_def Table_new_def dest: run_calls_frame)

theorem get_id_unguarded_and_stable_witness:
  "\<exists>t' w'. run_calls [Call_init (batch [(''x'', [5, 6])] 2) 2 OP_INSERT,
                      Call_replace_data_table (batch [(''x'', [1])] 1),
                      Call_set_column_names [''y''],
                      Call_calculate_offset 5]
             (new_table 7 3 [], world0) = Some (Inr (t', w')) \<and>
           get_id t' = Inr 7 \<and> get_id (new_table 7 3 []) = Inr 7"
proof -
  let ?cs = "[Call_init (batch [(''x'', [5, 6])] 2) 2 OP_INSERT,
              Call_replace_data_table (batch [(''x'', [1])] 1),
              Call_set_column_names [''y''],
              Call_calculate_offset 5]"
  have "returned (run_calls ?cs (new_table 7 3 [], world0))"
    by code_simp
  then obtain s where "run_calls ?cs (new_table 7 3 [], world0) = Some (Inr s)"
    by (auto dest: returnedE)
  moreover obtain t' w' where "s = (t', w')" by (cases s)
  ultimately have r: "run_calls ?cs (new_table 7 3 [], world0) = Some (Inr (t', w'))"
    by simp
  with get_id_unguarded_and_stable [of "new_table 7 3 []" 7 0 "[]" "[]" 3 "[]" ?cs world0 t' w']
  show ?thesis by (auto simp: new_table_def)
qed

section \<open>The capacity ring\<close>

lemma total_rows_simps [simp]:
  "total_rows [] = 0" "total_rows ((dt, rc, op) # bs) = unat rc + total_rows bs"
  by (simp_all add: total_rows_def)

lemma unat_offset_step:
  fixes a b l :: uint32
  shows "unat ((a + b) mod l) = ((unat a + unat b) mod 2 ^ 32) mod unat l"
  by (simp add: unat_mod unat_word_ariths)

lemma unat_offset_step_small:
  fixes a b l :: uint32
  assumes "unat a + unat b < 2 ^ 32"
  shows "unat ((a + b) mod l) = (unat a + unat b) mod unat l"
  using assms by (simp add: unat_offset_step)

lemma unat_mod_less:
  fixes x l :: uint32
  assumes "l \<noteq> 0"
  shows "unat (x mod l) < unat l"
  using assms by (simp add: unat_mod unat_gt_0)

lemma ingests_Cons [simp]: "ingests ((dt, rc, op) # bs) = Call_init dt rc op # ingests bs"
  by (simp add: ingests_def)

lemma ingests_Nil [simp]: "ingests [] = []"
  by (simp add: ingests_def)

lemma do_call_init_Inr:
  assumes "do_call (Call_init dt rc op) (t, w) = Some (Inr (t1, w1))"
  obtains dt' where "init t w dt rc op = Some (Inr (t1, w1, dt'))"
  using assms by (auto simp: bindE_eq_Inr split: option.splits)

lemma ingests_offset_steps:
  assumes "run_calls (ingests bs) (t, w) = Some (Inr (t', w'))"
    and "unat (m_offset t) < unat (m_limit t)"
    and "no_wrap (m_offset t) (m_limit t) bs"
  shows "unat (m_offset t') = (unat (m_offset t) + total_rows bs) mod unat (m_limit t)"
  using assms
proof (induction bs arbitrary: t w)
  case Nil
  then show ?case by simp
next
  case (Cons b bs)
  obtain dt rc op where b: "b = (dt, rc, op)" by (cases b)
  from Cons.prems(1) obtain s1 where s: "do_call (Call_init dt rc op) (t, w) = Some (Inr s1)"
    and r: "run_calls (ingests bs) s1 = Some (Inr (t', w'))"
    unfolding b ingests_Cons by (rule run_calls_Cons_Inr)
  obtain t1 w1 where s1: "s1 = (t1, w1)" by (cases s1)
  from s obtain dt' where i: "init t w dt rc op = Some (Inr (t1, w1, dt'))"
    unfolding s1 by (rule do_call_init_Inr)
  have lim: "m_limit t \<noteq> 0" and l1: "m_limit t1 = m_limit t"
    and o1: "m_offset t1 = (m_offset t + rc) mod m_limit t"
    using init_Inr [OF i] by simp_all
  from Cons.prems(3) have small: "unat (m_offset t) + unat rc < 2 ^ 32"
    and nw: "no_wrap (m_offset t1) (m_limit t1) bs"
    by (simp_all add: b o1 l1)
  have u1: "unat (m_offset t1) = (unat (m_offset t) + unat rc) mod unat (m_limit t)"
    unfolding o1 using small by (rule unat_offset_step_small)
  have lt: "unat (m_offset t1) < unat (m_limit t1)"
    unfolding o1 l1 using lim by (rule unat_mod_less)
  have "unat (m_offset t') = (unat (m_offset t1) + total_rows bs) mod unat (m_limit t1)"
    using r [unfolded s1] lt nw by (rule Cons.IH)
  also have "\<dots> = (unat (m_offset t) + unat rc + total_rows bs) mod unat (m_limit t)"
    unfolding u1 l1 by (simp add: mod_add_left_eq)
  finally show ?case by (simp add: b add.assoc)
qed

lemma do_call_offset_inv:
  assumes "do_call c (t, w) = Some (Inr (t', w'))"
    and "unat (m_offset t) < unat (m_limit t)"
  shows "unat (m_offset t') < unat (m_limit t')"
proof (cases c)
  case (Call_init dt rc op)
  with assms(1) have "do_call (Call_init dt rc op) (t, w) = Some (Inr (t', w'))" by simp
  then obtain dt' where i: "init t w dt rc op = Some (Inr (t', w', dt'))"
    by (rule do_call_init_Inr)
  show ?thesis
    using init_Inr(2,3,5) [OF i] by (simp add: unat_mod_less)
next
  case (Call_replace_data_table dt)
  with assms(1) have "replace_data_table t w dt = Inr (t', w')" by simp
  from replace_data_table_frame(2) [OF this] assms(2) show ?thesis
    by (simp add: set_gnode_def)
next
  case (Call_calculate_offset rc)
  with assms(1) have "calculate_offset t rc = Inr t'"
    by (auto simp: bindE_eq_Inr)
  then show ?thesis
    by (auto simp: calculate_offset_Inr unat_mod_less)
qed (use assms in \<open>auto simp: bindE_eq_Inr set_gnode_def set_column_names_def
       set_data_types_def\<close>)

lemma run_calls_offset_inv:
  assumes "run_calls cs (t, w) = Some (Inr (t', w'))"
    and "unat (m_offset t) < unat (m_limit t)"
  shows "unat (m_offset t') < unat (m_limit t')"
  using assms
proof (induction cs arbitrary: t w)
  case Nil
  then show ?case by simp
next
  case (Cons c cs)
  from Cons.prems(1) obtain s1 where s: "do_call c (t, w) = Some (Inr s1)"
    and r: "run_calls cs s1 = Some (Inr (t', w'))"
    by (rule run_calls_Cons_Inr)
  obtain t1 w1 where s1: "s1 = (t1, w1)" by (cases s1)
  from do_call_offset_inv [OF s [unfolded s1] Cons.prems(2)]
  show ?case by (rule Cons.IH [OF r [unfolded s1]])
qed

text \<open>
  C2 (as amended). \<open>calculate_offset\<close> computes in unsigned 32-bit arithmetic: on a
  table whose limit is not zero the new offset is
  \<open>((offset + row_count) mod 2^32) mod limit\<close>, which is below the limit, and it is
  \<open>(offset + row_count) mod limit\<close> whenever \<open>offset + row_count\<close> is below \<open>2^32\<close>.
  A successful ingest leaves the table with exactly that offset and the same limit.
  After a sequence of ingests in none of which \<open>offset + row_count\<close> reaches \<open>2^32\<close>,
  the offset is 0 if the sequence started at offset 0 and its cumulative row count is
  \<open>k * limit\<close>, and in general it is the offset at the start plus the cumulative row
  count, modulo the limit, if the offset at the start was below the limit. An offset
  below the limit stays below the limit through every sequence of calls.
\<close>

theorem offset_ring:
  "(m_limit t \<noteq> 0 \<longrightarrow>
      (\<exists>t1. calculate_offset t rc = Inr t1 \<and>
         unat (m_offset t1) = ((unat (m_offset t) + unat rc) mod 2 ^ 32) mod unat (m_limit t) \<and>
         unat (m_offset t1) < unat (m_limit t) \<and>
         (unat (m_offset t) + unat rc < 2 ^ 32 \<longrightarrow>
            unat (m_offset t1) = (unat (m_offset t) + unat rc) mod unat (m_limit t)))) \<and>
   (init t w dt rc op = Some (Inr (t', w', dt')) \<longrightarrow>
      m_limit t \<noteq> 0 \<and> m_limit t' = m_limit t \<and>
      calculate_offset t rc = Inr (t\<lparr>m_offset := m_offset t'\<rparr>)) \<and>
   (run_calls (ingests bs) (t, w) = Some (Inr (t'', w'')) \<and> m_offset t = 0 \<and>
    total_rows bs = k * unat (m_limit t) \<and> no_wrap (m_offset t) (m_limit t) bs \<longrightarrow>
      m_offset t'' = 0) \<and>
   (run_calls (ingests bs) (t, w) = Some (Inr (t'', w'')) \<and>
    unat (m_offset t) < unat (m_limit t) \<and> no_wrap (m_offset t) (m_limit t) bs \<longrightarrow>
      unat (m_offset t'') = (unat (m_offset t) + total_rows bs) mod unat (m_limit t)) \<and>
   (unat (m_offset t) < unat (m_limit t) \<and> run_calls cs (t, w) = Some (Inr (t3, w3)) \<longrightarrow>
      unat (m_offset t3) < unat (m_limit t3))"
proof (intro conjI impI)
  assume "m_limit t \<noteq> 0"
  then show "\<exists>t1. calculate_offset t rc = Inr t1 \<and>
         unat (m_offset t1) = ((unat (m_offset t) + unat rc) mod 2 ^ 32) mod unat (m_limit t) \<and>
         unat (m_offset t1) < unat (m_limit t) \<and>
         (unat (m_offset t) + unat rc < 2 ^ 32 \<longrightarrow>
            unat (m_offset t1) = (unat (m_offset t) + unat rc) mod unat (m_limit t))"
    by (simp add: calculate_offset_def unat_offset_step unat_gt_0)
next
  assume i: "init t w dt rc op = Some (Inr (t', w', dt'))"
  show "m_limit t \<noteq> 0" "m_limit t' = m_limit t"
    using init_Inr [OF i] by simp_all
  show "calculate_offset t rc = Inr (t\<lparr>m_offset := m_offset t'\<rparr>)"
    using init_Inr [OF i] by (simp add: calculate_offset_def)
next
  assume a: "run_calls (ingests bs) (t, w) = Some (Inr (t'', w'')) \<and> m_offset t = 0 \<and>
    total_rows bs = k * unat (m_limit t) \<and> no_wrap (m_offset t) (m_limit t) bs"
  show "m_offset t'' = 0"
  proof (cases bs)
    case Nil
    with a show ?thesis by auto
  next
    case (Cons b bs')
    obtain dt0 rc0 op0 where b: "b = (dt0, rc0, op0)" by (cases b)
    from a have "run_calls (Call_init dt0 rc0 op0 # ingests bs') (t, w) = Some (Inr (t'', w''))"
      by (simp add: Cons b)
    then obtain s1 where s: "do_call (Call_init dt0 rc0 op0) (t, w) = Some (Inr s1)"
      by (rule run_calls_Cons_Inr)
    obtain t1 w1 where s1: "s1 = (t1, w1)" by (cases s1)
    from s [unfolded s1] obtain dt1 where "init t w dt0 rc0 op0 = Some (Inr (t1, w1, dt1))"
      by (rule do_call_init_Inr)
    then have "m_limit t \<noteq> 0" by (rule init_Inr)
    then have pos: "unat (m_offset t) < unat (m_limit t)"
      using a by (simp add: unat_gt_0)
    have "unat (m_offset t'') = (unat (m_offset t) + total_rows bs) mod unat (m_limit t)"
    proof (rule ingests_offset_steps [where w = w and w' = w''])
      show "run_calls (ingests bs) (t, w) = Some (Inr (t'', w''))" using a by blast
      show "unat (m_offset t) < unat (m_limit t)" by (rule pos)
      show "no_wrap (m_offset t) (m_limit t) bs" using a by blast
    qed
    with a have "unat (m_offset t'') = 0" by simp
    then show ?thesis by (simp add: unat_eq_0)
  qed
next
  assume "run_calls (ingests bs) (t, w) = Some (Inr (t'', w'')) \<and>
    unat (m_offset t) < unat (m_limit t) \<and> no_wrap (m_offset t) (m_limit t) bs"
  then show "unat (m_offset t'') = (unat (m_offset t) + total_rows bs) mod unat (m_limit t)"
    using ingests_offset_steps [of bs t w t'' w''] by blast
next
  assume "unat (m_offset t) < unat (m_limit t) \<and> run_calls cs (t, w) = Some (Inr (t3, w3))"
  then show "unat (m_offset t3) < unat (m_limit t3)"
    using run_calls_offset_inv [of cs t w t3 w3] by blast
qed

theorem offset_ring_witness:
  "\<exists>t1 t' w' dt' t'' w''.
     calculate_offset (new_table 0 0x80000000 []) 1 = Inr t1 \<and> unat (m_offset t1) = 1 \<and>
     init (new_table 0 0x80000000 []) world0 (batch [] 1) 1 OP_INSERT = Some (Inr (t', w', dt')) \<and>
     calculate_offset (new_table 0 0x80000000 []) 1 =
       Inr ((new_table 0 0x80000000 [])\<lparr>m_offset := m_offset t'\<rparr>) \<and>
     run_calls (ingests [(batch [] 0, 0x80000000, OP_INSERT), (batch [] 0, 0x80000000, OP_INSERT)])
       (new_table 0 0x80000000 [], world0) = Some (Inr (t'', w'')) \<and>
     m_offset t'' = 0 \<and> unat (m_offset t'') < unat (m_limit t'')"
proof -
  let ?t = "new_table 0 0x80000000 []"
  let ?bs = "[(batch [] 0, 0x80000000 :: uint32, OP_INSERT), (batch [] 0, 0x80000000, OP_INSERT)]"
  have "returned (init ?t world0 (batch [] 1) 1 OP_INSERT)"
    by code_simp
  then obtain x where "init ?t world0 (batch [] 1) 1 OP_INSERT = Some (Inr x)"
    by (auto dest: returnedE)
  then obtain t' w' dt' where i: "init ?t world0 (batch [] 1) 1 OP_INSERT = Some (Inr (t', w', dt'))"
    by (cases x) auto
  have "returned (run_calls (ingests ?bs) (?t, world0))"
    by code_simp
  then obtain y where "run_calls (ingests ?bs) (?t, world0) = Some (Inr y)"
    by (auto dest: returnedE)
  then obtain t'' w'' where r: "run_calls (ingests ?bs) (?t, world0) = Some (Inr (t'', w''))"
    by (cases y) auto
  have l: "m_limit ?t \<noteq> 0" and o: "m_offset ?t = 0"
    and tr: "total_rows ?bs = 2 * unat (m_limit ?t)"
    and nw: "no_wrap (m_offset ?t) (m_limit ?t) ?bs"
    and lt: "unat (m_offset ?t) < unat (m_limit ?t)"
    by (simp_all add: new_table_def)
  from offset_ring [where t = ?t and rc = 1 and w = world0 and dt = "batch [] 1"
      and op = OP_INSERT and t' = t' and w' = w' and dt' = dt' and bs = ?bs and k = 2
      and t'' = t'' and w'' = w'' and cs = "ingests ?bs" and ?t3.0 = t'' and ?w3.0 = w''] l i r o tr nw lt
  show ?thesis by (auto simp: new_table_def)
qed

text \<open>
  The claim as stated fails where the 32-bit sum wraps: from offset 2 with limit 3, a
  row count of \<open>2^32 - 1\<close> gives offset 1, and \<open>(2 + (2^32 - 1)) mod 3\<close> is 2.
\<close>

theorem offset_ring_counterexample:
  "calculate_offset (new_table 0 3 []) 2 = Inr ((new_table 0 3 [])\<lparr>m_offset := 2\<rparr>) \<and>
   calculate_offset ((new_table 0 3 [])\<lparr>m_offset := 2\<rparr>) 0xFFFFFFFF =
     Inr ((new_table 0 3 [])\<lparr>m_offset := 1\<rparr>) \<and>
   unat (1 :: uint32) \<noteq> (unat (2 :: uint32) + unat (0xFFFFFFFF :: uint32)) mod unat (3 :: uint32)"
  by (simp add: calculate_offset_def new_table_def)

section \<open>Key assignment\<close>

lemma signed_32_arith:
  fixes n :: nat
  assumes "n < 2 ^ 32"
  shows "(int n + 2 ^ 31) mod 2 ^ 32 - 2 ^ 31 = (if n < 2 ^ 31 then int n else int n - 2 ^ 32)"
proof (cases "n < 2 ^ 31")
  case True
  then have "(int n + 2 ^ 31) mod 2 ^ 32 = int n + 2 ^ 31"
    by (intro mod_pos_pos_trivial) simp_all
  with True show ?thesis by simp
next
  case False
  have "(int n + 2 ^ 31) mod 2 ^ 32 = (int n + 2 ^ 31 - 2 ^ 32) mod 2 ^ 32"
    by (metis mod_diff_right_eq mod_self diff_zero)
  also have "\<dots> = int n + 2 ^ 31 - 2 ^ 32"
    using assms False by (intro mod_pos_pos_trivial) simp_all
  finally show ?thesis using False by simp
qed

lemma sint_uint32:
  fixes w :: uint32
  shows "sint w = (if unat w < 2 ^ 31 then int (unat w) else int (unat w) - 2 ^ 32)"
proof -
  have "sint w = (uint w + 2 ^ 31) mod 2 ^ 32 - 2 ^ 31"
    using int_word_sint [where 'a = 32, of "uint w"] by simp
  then have "sint w = (int (unat w) + 2 ^ 31) mod 2 ^ 32 - 2 ^ 31"
    unfolding uint_nat .
  moreover have "unat w < 2 ^ 32"
    using unsigned_less [of w, where ?'a = nat] by simp
  ultimately show ?thesis
    by (simp only: signed_32_arith)
qed

lemma key_unat:
  fixes off lim :: uint32
  assumes "i < 2 ^ 32"
  shows "unat ((of_nat i + off) mod lim) = ((i + unat off) mod 2 ^ 32) mod unat lim"
  using assms by (simp add: unat_mod unat_word_ariths unat_of_nat mod_add_left_eq)

lemma unat_Suc32:
  fixes ridx :: uint32
  assumes "unat ridx < n" "n < 2 ^ 32"
  shows "unat (ridx + 1) = Suc (unat ridx)"
proof -
  from assms have "unat ridx + unat (1 :: uint32) < 2 ^ LENGTH(32)" by simp
  then have "unat (ridx + 1) = unat ridx + unat (1 :: uint32)"
    by (simp only: unat_add_lem)
  then show ?thesis by simp
qed

lemma fill_keys_step:
  assumes "fill_keys off lim n ridx (kc, oc) = Some (Inr r)" and "unat ridx < n"
  shows "lim \<noteq> 0 \<and> unat ridx < length (col_data kc) \<and> unat ridx < length (col_data oc) \<and>
         fill_keys off lim n (ridx + 1)
           (set_nth_int32 kc (unat ridx) ((ridx + off) mod lim),
            set_nth_int32 oc (unat ridx) ((ridx + off) mod lim)) = Some (Inr r)"
  using assms by (subst (asm) fill_keys.simps) (simp add: in_rows_def split: if_splits)

lemma fill_keys_stop:
  assumes "\<not> unat ridx < n"
  shows "fill_keys off lim n ridx cols = Some (Inr cols)"
  using assms by (subst fill_keys.simps) simp


lemma fill_keys_rows:
  assumes "fill_keys off lim n ridx (kc, oc) = Some (Inr (kc', oc'))"
    and "n < 2 ^ 32" and "unat ridx \<le> n"
  shows "(\<forall>i. unat ridx \<le> i \<and> i < n \<longrightarrow>
            i < length (col_data kc') \<and> col_data kc' ! i = key_cell off lim i \<and>
            i < length (col_data oc') \<and> col_data oc' ! i = key_cell off lim i) \<and>
         (\<forall>i<unat ridx. col_data kc' ! i = col_data kc ! i \<and> col_data oc' ! i = col_data oc ! i) \<and>
         length (col_data kc') = length (col_data kc) \<and>
         length (col_data oc') = length (col_data oc) \<and>
         col_dtype kc' = col_dtype kc \<and> col_dtype oc' = col_dtype oc"
  using assms
proof (induction "n - unat ridx" arbitrary: ridx kc oc)
  case 0
  then have "\<not> unat ridx < n" by simp
  from fill_keys_stop [OF this] "0.prems"(1) have "kc' = kc" "oc' = oc" by simp_all
  with 0 show ?case by auto
next
  case (Suc k)
  then have lt: "unat ridx < n" by simp
  let ?v = "(ridx + off) mod lim"
  let ?kc = "set_nth_int32 kc (unat ridx) ?v" and ?oc = "set_nth_int32 oc (unat ridx) ?v"
  from fill_keys_step [OF Suc.prems(1) lt]
  have lk: "unat ridx < length (col_data kc)" and lo: "unat ridx < length (col_data oc)"
    and rec: "fill_keys off lim n (ridx + 1) (?kc, ?oc) = Some (Inr (kc', oc'))"
    by simp_all
  have u: "unat (ridx + 1) = Suc (unat ridx)"
    using lt Suc.prems(2) by (rule unat_Suc32)
  have k: "k = n - unat (ridx + 1)" using Suc.hyps(2) u by simp
  have le: "unat (ridx + 1) \<le> n" using lt u by simp
  note IH = Suc.hyps(1) [OF k rec Suc.prems(2) le, unfolded u]
  have here: "col_data ?kc ! unat ridx = key_cell off lim (unat ridx)"
    "col_data ?oc ! unat ridx = key_cell off lim (unat ridx)"
    using lk lo by (simp_all add: set_nth_int32_def key_cell_def)
  have below: "\<And>i. i < unat ridx \<Longrightarrow> col_data ?kc ! i = col_data kc ! i \<and>
      col_data ?oc ! i = col_data oc ! i"
    by (simp add: set_nth_int32_def)
  have len: "length (col_data ?kc) = length (col_data kc)"
    "length (col_data ?oc) = length (col_data oc)"
    "col_dtype ?kc = col_dtype kc" "col_dtype ?oc = col_dtype oc"
    by (simp_all add: set_nth_int32_def)
  show ?case
  proof (intro conjI allI impI)
    fix i assume i: "unat ridx \<le> i \<and> i < n"
    show "i < length (col_data kc')" "col_data kc' ! i = key_cell off lim i"
      "i < length (col_data oc')" "col_data oc' ! i = key_cell off lim i"
      using IH i here lk lo len by (cases "i = unat ridx"; force)+
  next
    fix i assume "i < unat ridx"
    then show "col_data kc' ! i = col_data kc ! i" "col_data oc' ! i = col_data oc ! i"
      using IH below by simp_all
  qed (use IH len in simp_all)
qed

lemma fill_keys_bounded:
  assumes "fill_keys off lim n ridx cols = Some y"
  shows "(\<exists>r. y = Inr r) \<longrightarrow> n < 2 ^ 32"
proof (rule fill_keys.raw_induct
    [where P = "\<lambda>off lim n ridx cols y. (\<exists>r. y = Inr r) \<longrightarrow> n < 2 ^ 32", OF _ assms])
  fix f :: "uint32 \<Rightarrow> uint32 \<Rightarrow> nat \<Rightarrow> uint32 \<Rightarrow> t_column \<times> t_column \<Rightarrow>
    (error + t_column \<times> t_column) option"
  fix off lim :: uint32 and n ridx cols y
  assume IH: "\<And>off lim n ridx cols y. f off lim n ridx cols = Some y \<Longrightarrow>
      (\<exists>r. y = Inr r) \<longrightarrow> n < 2 ^ 32"
    and eq: "(if unat ridx < n then
              (if lim = 0 then Some (Inl ModuloByZero)
               else if \<not> (in_rows (fst cols) (unat ridx) \<and> in_rows (snd cols) (unat ridx))
                 then Some (Inl ColumnOutOfRange)
               else f off lim n (ridx + 1)
                  (set_nth_int32 (fst cols) (unat ridx) ((ridx + off) mod lim),
                   set_nth_int32 (snd cols) (unat ridx) ((ridx + off) mod lim)))
            else Some (Inr cols)) = Some y"
  have b: "unat ridx < 2 ^ 32"
    using unsigned_less [of ridx, where ?'a = nat] by simp
  show "(\<exists>r. y = Inr r) \<longrightarrow> n < 2 ^ 32"
  proof (cases "unat ridx < n")
    case True
    with eq IH show ?thesis by (auto split: if_splits)
  next
    case False
    with b show ?thesis by simp
  qed
qed

lemma map_of_put_column:
  "map_of (dt_columns (put_column name c dt)) = (map_of (dt_columns dt))(name \<mapsto> c)"
  by (simp add: put_column_def update_conv')

lemma dt_size_put_column [simp]: "dt_size (put_column name c dt) = dt_size dt"
  by (simp add: put_column_def)

lemma add_column_cases:
  assumes "add_column name dtype st dt = (c, dt1)"
  shows "map_of (dt_columns dt1) = (map_of (dt_columns dt))(name \<mapsto> c)"
    and "dt_size dt1 = dt_size dt"
    and "map_of (dt_columns dt) name = None \<Longrightarrow>
           col_dtype c = dtype \<and> col_data c = replicate (dt_size dt) S_NONE"
    and "map_of (dt_columns dt) name = Some c0 \<Longrightarrow> c = c0"
  using assms
  by (auto simp: add_column_def Let_def map_of_append fun_eq_iff map_add_def
      split: option.splits)

text \<open>The batch after \<open>process_index_column\<close> on a table without an index column.\<close>

lemma process_index_column_synth:
  assumes idx: "m_index t = []"
    and ok: "process_index_column t dt = Some (Inr dt')"
  shows "\<exists>kc oc.
           map_of (dt_columns dt') = (map_of (dt_columns dt))(''psp_pkey'' \<mapsto> kc, ''psp_okey'' \<mapsto> oc) \<and>
           dt_size dt' = dt_size dt \<and> dt_size dt < 2 ^ 32 \<and>
           (map_of (dt_columns dt) ''psp_pkey'' = None \<longrightarrow> col_dtype kc = DTYPE_INT32) \<and>
           (map_of (dt_columns dt) ''psp_okey'' = None \<longrightarrow> col_dtype oc = DTYPE_INT32) \<and>
           (\<forall>i<dt_size dt.
              i < length (col_data kc) \<and> col_data kc ! i = key_cell (m_offset t) (m_limit t) i \<and>
              i < length (col_data oc) \<and> col_data oc ! i = key_cell (m_offset t) (m_limit t) i)"
proof -
  obtain kc0 dt1 where a1: "add_column ''psp_pkey'' DTYPE_INT32 True dt = (kc0, dt1)"
    by (cases "add_column ''psp_pkey'' DTYPE_INT32 True dt")
  obtain oc0 dt2 where a2: "add_column ''psp_okey'' DTYPE_INT32 True dt1 = (oc0, dt2)"
    by (cases "add_column ''psp_okey'' DTYPE_INT32 True dt1")
  from ok idx a1 a2 obtain kc oc
    where f: "fill_keys (m_offset t) (m_limit t) (dt_size dt2) 0 (kc0, oc0) = Some (Inr (kc, oc))"
      and dt': "dt' = put_column ''psp_okey'' oc (put_column ''psp_pkey'' kc dt2)"
    by (auto simp: process_index_column_def split: option.splits sum.splits)
  have sz: "dt_size dt2 = dt_size dt"
    using add_column_cases(2) [OF a1] add_column_cases(2) [OF a2] by simp
  have n: "dt_size dt < 2 ^ 32"
    using fill_keys_bounded [OF f] sz by simp
  have rows: "(\<forall>i. unat (0 :: uint32) \<le> i \<and> i < dt_size dt \<longrightarrow>
            i < length (col_data kc) \<and> col_data kc ! i = key_cell (m_offset t) (m_limit t) i \<and>
            i < length (col_data oc) \<and> col_data oc ! i = key_cell (m_offset t) (m_limit t) i)"
    and ty: "col_dtype kc = col_dtype kc0" "col_dtype oc = col_dtype oc0"
    using fill_keys_rows [OF f [unfolded sz] n] by auto
  have m2: "map_of (dt_columns dt2) = (map_of (dt_columns dt))(''psp_pkey'' \<mapsto> kc0, ''psp_okey'' \<mapsto> oc0)"
    using add_column_cases(1) [OF a1] add_column_cases(1) [OF a2] by simp
  have m: "map_of (dt_columns dt') = (map_of (dt_columns dt))(''psp_pkey'' \<mapsto> kc, ''psp_okey'' \<mapsto> oc)"
    unfolding dt' by (simp add: map_of_put_column m2)
  have t1: "map_of (dt_columns dt) ''psp_pkey'' = None \<longrightarrow> col_dtype kc = DTYPE_INT32"
    using add_column_cases(3) [OF a1] ty by simp
  have "map_of (dt_columns dt1) ''psp_okey'' = map_of (dt_columns dt) ''psp_okey''"
    using add_column_cases(1) [OF a1] by simp
  then have t2: "map_of (dt_columns dt) ''psp_okey'' = None \<longrightarrow> col_dtype oc = DTYPE_INT32"
    using add_column_cases(3) [OF a2] ty by simp
  show ?thesis
    by (rule exI [of _ kc], rule exI [of _ oc]) (use m sz n rows t1 t2 dt' in simp)
qed

lemma key_cell_small:
  assumes "lim \<noteq> 0" and "unat lim \<le> 2 ^ 31" and "i + unat off < 2 ^ 32"
  shows "key_cell off lim i = S_INT32 (int ((i + unat off) mod unat lim))"
proof -
  from assms(3) have i: "i < 2 ^ 32" by simp
  have u: "unat ((of_nat i + off) mod lim) = (i + unat off) mod unat lim"
    using key_unat [OF i, of off lim] assms(3) by simp
  have "(i + unat off) mod unat lim < unat lim"
    using assms(1) by (simp add: unat_gt_0)
  with assms(2) have "unat ((of_nat i + off) mod lim) < 2 ^ 31"
    unfolding u by linarith
  then show ?thesis
    unfolding key_cell_def sint_uint32 u by simp
qed

lemma key_cell_wrapped:
  assumes "2 ^ 31 - 1 < unat ((of_nat i + off) mod lim)"
  shows "key_cell off lim i = S_INT32 (int (unat ((of_nat i + off) mod lim)) - 2 ^ 32)"
  using assms unfolding key_cell_def sint_uint32 by simp

lemma ring_inj:
  fixes i j :: nat
  assumes "i < n" "j < n" "n \<le> lim" "(i + off) mod lim = (j + off) mod lim"
  shows "i = j"
proof -
  have aux: "False" if "a < b" "b < n" "(a + off) mod lim = (b + off) mod lim" for a b
  proof -
    from that have "lim dvd (b + off) - (a + off)"
      by (subst mod_eq_dvd_iff_nat [symmetric]) simp_all
    then have "lim dvd b - a" by simp
    moreover from that assms(3) have "0 < b - a" "b - a < lim" by simp_all
    ultimately show False by (simp add: nat_dvd_not_less)
  qed
  show ?thesis
    using aux [of i j] aux [of j i] assms by (cases i j rule: linorder_cases) simp_all
qed

lemma process_op_column_eq:
  assumes "add_column ''psp_op'' DTYPE_UINT8 False dt = (c, dt1)"
  shows "process_op_column dt op =
           put_column ''psp_op''
             (raw_fill c (S_OP (if op = OP_DELETE then OP_DELETE else OP_INSERT))) dt1"
  using assms by (cases op) (simp_all add: process_op_column_def)

lemma process_op_column_frame:
  "dt_size (process_op_column dt op) = dt_size dt"
  "name \<noteq> ''psp_op'' \<Longrightarrow>
     map_of (dt_columns (process_op_column dt op)) name = map_of (dt_columns dt) name"
proof -
  obtain c dt1 where a: "add_column ''psp_op'' DTYPE_UINT8 False dt = (c, dt1)"
    by (cases "add_column ''psp_op'' DTYPE_UINT8 False dt")
  show "dt_size (process_op_column dt op) = dt_size dt"
    unfolding process_op_column_eq [OF a] using add_column_cases(2) [OF a] by simp
  show "map_of (dt_columns (process_op_column dt op)) name = map_of (dt_columns dt) name"
    if "name \<noteq> ''psp_op''"
    unfolding process_op_column_eq [OF a] using add_column_cases(1) [OF a] that
    by (simp add: map_of_put_column)
qed

lemma init_steps:
  assumes "init t w dt rc op = Some (Inr (t', w', dt'))"
  obtains t2 w2 g where "gnode_at w2 (m_gnode t2) = Inr g"
    and "t' = t2\<lparr>m_init := True\<rparr>" and "w' = pool_send (gn_id g) 0 dt' w2"
  using assms
  by (auto simp: init_def bindE_eq_Inr split: option.splits prod.splits)

lemma gnode_at_pool_event_add [simp]: "gnode_at (pool_event_add e w) p = gnode_at w p"
  by (simp add: gnode_at_def pool_event_add_def split: option.splits)

lemma pool_log_event_add [simp]:
  "pool_log (w_pool (pool_event_add e w)) = pool_log (w_pool w) @ [e]"
  by (simp add: pool_event_add_def)

lemma init_sent:
  assumes "init t w dt rc op = Some (Inr (t', w', dt'))"
  shows "\<exists>g. gnode_at w' (m_gnode t') = Inr g \<and>
             last (pool_log (w_pool w')) = EvSend (gn_id g) 0 dt'"
proof -
  from assms obtain t2 w2 g where "gnode_at w2 (m_gnode t2) = Inr g"
    and "t' = t2\<lparr>m_init := True\<rparr>" and "w' = pool_send (gn_id g) 0 dt' w2"
    by (rule init_steps)
  then show ?thesis by (simp add: pool_send_def)
qed

lemma init_synth:
  assumes idx: "m_index t = []"
    and ok: "init t w dt rc op = Some (Inr (t', w', dt'))"
  shows "\<exists>kc oc.
           map_of (dt_columns dt') ''psp_pkey'' = Some kc \<and>
           map_of (dt_columns dt') ''psp_okey'' = Some oc \<and>
           m_limit t \<noteq> 0 \<and>
           (map_of (dt_columns dt) ''psp_pkey'' = None \<longrightarrow> col_dtype kc = DTYPE_INT32) \<and>
           (map_of (dt_columns dt) ''psp_okey'' = None \<longrightarrow> col_dtype oc = DTYPE_INT32) \<and>
           (\<forall>i<dt_size dt.
              i < length (col_data kc) \<and> col_data kc ! i = key_cell (m_offset t) (m_limit t) i \<and>
              i < length (col_data oc) \<and> col_data oc ! i = key_cell (m_offset t) (m_limit t) i)"
proof -
  let ?dt = "process_op_column dt op"
  have p: "process_index_column t ?dt = Some (Inr dt')" and lim: "m_limit t \<noteq> 0"
    using init_Inr [OF ok] by simp_all
  from process_index_column_synth [OF idx p] obtain kc oc where
    m: "map_of (dt_columns dt') = (map_of (dt_columns ?dt))(''psp_pkey'' \<mapsto> kc, ''psp_okey'' \<mapsto> oc)"
    and t1: "map_of (dt_columns ?dt) ''psp_pkey'' = None \<longrightarrow> col_dtype kc = DTYPE_INT32"
    and t2: "map_of (dt_columns ?dt) ''psp_okey'' = None \<longrightarrow> col_dtype oc = DTYPE_INT32"
    and rows: "\<forall>i<dt_size ?dt.
              i < length (col_data kc) \<and> col_data kc ! i = key_cell (m_offset t) (m_limit t) i \<and>
              i < length (col_data oc) \<and> col_data oc ! i = key_cell (m_offset t) (m_limit t) i"
    by (elim exE conjE) (rule that; assumption)
  have k: "map_of (dt_columns dt') ''psp_pkey'' = Some kc"
    and o: "map_of (dt_columns dt') ''psp_okey'' = Some oc"
    unfolding m by simp_all
  show ?thesis
    by (rule exI [of _ kc], rule exI [of _ oc])
      (use k o lim t1 t2 rows in \<open>simp add: process_op_column_frame\<close>)
qed

lemma process_index_column_clone:
  assumes "m_index t \<noteq> []" and "map_of (dt_columns dt) (m_index t) = Some c"
  shows "process_index_column t dt =
           Some (Inr (put_column ''psp_okey'' c (put_column ''psp_pkey'' c dt)))"
  using assms
  by (simp add: process_index_column_def clone_column_def map_of_put_column)

lemma process_index_column_frame:
  assumes "process_index_column t dt = Some (Inr dt')"
    and "name \<noteq> ''psp_pkey''" and "name \<noteq> ''psp_okey''"
  shows "map_of (dt_columns dt') name = map_of (dt_columns dt) name"
proof (cases "m_index t = []")
  case True
  from process_index_column_synth [OF True assms(1)] assms(2,3) show ?thesis
    by auto
next
  case False
  with assms(1) obtain d1 where "clone_column (m_index t) ''psp_pkey'' dt = Inr d1"
    and "clone_column (m_index t) ''psp_okey'' d1 = Inr dt'"
    by (auto simp: process_index_column_def bindE_eq_Inr)
  then show ?thesis
    using assms(2,3)
    by (auto simp: clone_column_def map_of_put_column split: option.splits)
qed

text \<open>
  C5. On a table with an index column that the batch has, \<open>process_index_column\<close>
  returns the batch with the columns \<open>psp_pkey\<close> and \<open>psp_okey\<close> both equal to
  the index column, cell for cell, whatever its values: nothing is hashed, changed or
  checked for uniqueness. An ingest hands the pool a batch with these two columns (the
  index column being another one than the operation column, which the ingest fills
  first).
\<close>

theorem index_column_cloned:
  assumes "m_index t \<noteq> []" and "map_of (dt_columns dt) (m_index t) = Some c"
  shows "\<exists>dt'. process_index_column t dt = Some (Inr dt') \<and>
           map_of (dt_columns dt') ''psp_pkey'' = Some c \<and>
           map_of (dt_columns dt') ''psp_okey'' = Some c \<and>
           dt_size dt' = dt_size dt \<and>
           (m_index t \<noteq> ''psp_op'' \<and> init t w dt rc op = Some (Inr (t1, w1, dt1)) \<longrightarrow>
              map_of (dt_columns dt1) ''psp_pkey'' = Some c \<and>
              map_of (dt_columns dt1) ''psp_okey'' = Some c \<and>
              (\<exists>g. gnode_at w1 (m_gnode t1) = Inr g \<and>
                   last (pool_log (w_pool w1)) = EvSend (gn_id g) 0 dt1))"
proof -
  let ?dt' = "put_column ''psp_okey'' c (put_column ''psp_pkey'' c dt)"
  have p: "process_index_column t dt = Some (Inr ?dt')"
    using assms by (rule process_index_column_clone)
  have a: "map_of (dt_columns ?dt') ''psp_pkey'' = Some c"
    "map_of (dt_columns ?dt') ''psp_okey'' = Some c" "dt_size ?dt' = dt_size dt"
    by (simp_all add: map_of_put_column)
  have b: "map_of (dt_columns dt1) ''psp_pkey'' = Some c \<and>
           map_of (dt_columns dt1) ''psp_okey'' = Some c \<and>
           (\<exists>g. gnode_at w1 (m_gnode t1) = Inr g \<and>
                last (pool_log (w_pool w1)) = EvSend (gn_id g) 0 dt1)"
    if ne: "m_index t \<noteq> ''psp_op''" and i: "init t w dt rc op = Some (Inr (t1, w1, dt1))"
  proof -
    let ?d = "process_op_column dt op"
    have "map_of (dt_columns ?d) (m_index t) = Some c"
      using ne assms(2) by (simp add: process_op_column_frame)
    with assms(1)
    have "process_index_column t ?d =
            Some (Inr (put_column ''psp_okey'' c (put_column ''psp_pkey'' c ?d)))"
      by (rule process_index_column_clone)
    with init_Inr(1) [OF i]
    have "dt1 = put_column ''psp_okey'' c (put_column ''psp_pkey'' c ?d)" by simp
    then show ?thesis
      using init_sent [OF i] by (simp add: map_of_put_column)
  qed
  show ?thesis
    by (rule exI [of _ ?dt']) (use p a b in blast)
qed

theorem index_column_cloned_witness:
  "\<exists>dt' dt'' t1 w1 dt1.
     process_index_column (new_table 0 3 ''id'') (batch [(''id'', [10, 11, 12])] 3) = Some (Inr dt') \<and>
     map_option col_data (map_of (dt_columns dt') ''psp_pkey'') = Some [S_VAL 10, S_VAL 11, S_VAL 12] \<and>
     map_option col_data (map_of (dt_columns dt') ''psp_okey'') = Some [S_VAL 10, S_VAL 11, S_VAL 12] \<and>
     process_index_column (new_table 0 3 ''id'') (batch [(''id'', [7, 7])] 2) = Some (Inr dt'') \<and>
     map_option col_data (map_of (dt_columns dt'') ''psp_pkey'') = Some [S_VAL 7, S_VAL 7] \<and>
     init (new_table 0 3 ''id'') world0 (batch [(''id'', [10, 11, 12])] 3) 3 OP_INSERT
       = Some (Inr (t1, w1, dt1)) \<and>
     map_option col_data (map_of (dt_columns dt1) ''psp_pkey'') = Some [S_VAL 10, S_VAL 11, S_VAL 12] \<and>
     map_option col_data (map_of (dt_columns dt1) ''psp_okey'') = Some [S_VAL 10, S_VAL 11, S_VAL 12]"
proof -
  let ?t = "new_table 0 3 ''id''"
  let ?b = "batch [(''id'', [10, 11, 12])] 3" and ?b2 = "batch [(''id'', [7, 7])] 2"
  have h: "m_index ?t \<noteq> []" "m_index ?t \<noteq> ''psp_op''"
    "map_of (dt_columns ?b) (m_index ?t) = Some (user_column [10, 11, 12])"
    "map_of (dt_columns ?b2) (m_index ?t) = Some (user_column [7, 7])"
    by (simp_all add: new_table_def batch_def)
  have "returned (init ?t world0 ?b 3 OP_INSERT)"
    by code_simp
  then obtain x where "init ?t world0 ?b 3 OP_INSERT = Some (Inr x)"
    by (auto dest: returnedE)
  then obtain t1 w1 dt1 where i: "init ?t world0 ?b 3 OP_INSERT = Some (Inr (t1, w1, dt1))"
    by (cases x) auto
  from index_column_cloned [OF h(1) h(3), of world0 3 OP_INSERT t1 w1 dt1] h(2) i
  obtain dt' where "process_index_column ?t ?b = Some (Inr dt')"
    "map_of (dt_columns dt') ''psp_pkey'' = Some (user_column [10, 11, 12])"
    "map_of (dt_columns dt') ''psp_okey'' = Some (user_column [10, 11, 12])"
    "map_of (dt_columns dt1) ''psp_pkey'' = Some (user_column [10, 11, 12])"
    "map_of (dt_columns dt1) ''psp_okey'' = Some (user_column [10, 11, 12])"
    by blast
  moreover
  from index_column_cloned [OF h(1) h(4)]
  obtain dt'' where "process_index_column ?t ?b2 = Some (Inr dt'')"
    "map_of (dt_columns dt'') ''psp_pkey'' = Some (user_column [7, 7])"
    by blast
  ultimately show ?thesis
    using i by (simp add: user_column_def)
qed

section \<open>Operation tags\<close>

lemma raw_fill_data: "col_data (raw_fill c v) = replicate (length (col_data c)) v"
  by (simp add: raw_fill_def)

text \<open>
  C6. After \<open>process_op_column\<close> every cell of the column \<open>psp_op\<close> holds the same
  tag: \<open>OP_DELETE\<close> when the caller passed \<open>OP_DELETE\<close>, \<open>OP_INSERT\<close> for every
  other value. The column has one cell per row of the batch, for every size of the
  batch, when the batch had no such column before. The batch that an ingest hands to the
  pool has this column.
\<close>

theorem op_column_uniform:
  "\<exists>c. map_of (dt_columns (process_op_column dt op)) ''psp_op'' = Some c \<and>
        col_data c =
          replicate (length (col_data c)) (S_OP (if op = OP_DELETE then OP_DELETE else OP_INSERT)) \<and>
        (map_of (dt_columns dt) ''psp_op'' = None \<longrightarrow>
           length (col_data c) = dt_size dt \<and> col_dtype c = DTYPE_UINT8) \<and>
        (init t w dt rc op = Some (Inr (t', w', dt')) \<longrightarrow>
           map_of (dt_columns dt') ''psp_op'' = Some c \<and>
           (\<exists>g. gnode_at w' (m_gnode t') = Inr g \<and>
                last (pool_log (w_pool w')) = EvSend (gn_id g) 0 dt'))"
proof -
  let ?v = "S_OP (if op = OP_DELETE then OP_DELETE else OP_INSERT)"
  obtain c0 dt1 where a: "add_column ''psp_op'' DTYPE_UINT8 False dt = (c0, dt1)"
    by (cases "add_column ''psp_op'' DTYPE_UINT8 False dt")
  let ?c = "raw_fill c0 ?v"
  have eq: "process_op_column dt op = put_column ''psp_op'' ?c dt1"
    using a by (rule process_op_column_eq)
  have m: "map_of (dt_columns (process_op_column dt op)) ''psp_op'' = Some ?c"
    unfolding eq by (simp add: map_of_put_column)
  have d: "col_data ?c = replicate (length (col_data ?c)) ?v"
    by (simp add: raw_fill_data)
  have f: "length (col_data ?c) = dt_size dt \<and> col_dtype ?c = DTYPE_UINT8"
    if "map_of (dt_columns dt) ''psp_op'' = None"
    using add_column_cases(3) [OF a that] by (simp add: raw_fill_def)
  have i: "map_of (dt_columns dt') ''psp_op'' = Some ?c \<and>
           (\<exists>g. gnode_at w' (m_gnode t') = Inr g \<and>
                last (pool_log (w_pool w')) = EvSend (gn_id g) 0 dt')"
    if ok: "init t w dt rc op = Some (Inr (t', w', dt'))"
  proof -
    have "map_of (dt_columns dt') ''psp_op'' =
          map_of (dt_columns (process_op_column dt op)) ''psp_op''"
      using init_Inr(1) [OF ok] by (rule process_index_column_frame) simp_all
    with m init_sent [OF ok] show ?thesis by simp
  qed
  show ?thesis
    by (rule exI [of _ ?c]) (use m d f i in blast)
qed

theorem op_column_uniform_witness:
  "\<exists>c0 c1 c2 t' w' dt'.
     map_of (dt_columns (process_op_column (batch [(''x'', [])] 0) OP_DELETE)) ''psp_op'' = Some c0 \<and>
     col_data c0 = [] \<and>
     map_of (dt_columns (process_op_column (batch [(''x'', [5])] 1) OP_DELETE)) ''psp_op'' = Some c1 \<and>
     col_data c1 = [S_OP OP_DELETE] \<and>
     map_of (dt_columns (process_op_column (batch [(''x'', [5, 6])] 2) (OP_OTHER 2))) ''psp_op''
       = Some c2 \<and>
     col_data c2 = [S_OP OP_INSERT, S_OP OP_INSERT] \<and>
     init (new_table 0 3 []) world0 (batch [(''x'', [5])] 1) 1 OP_DELETE = Some (Inr (t', w', dt')) \<and>
     map_of (dt_columns dt') ''psp_op'' = Some c1"
proof -
  let ?t = "new_table 0 3 []"
  let ?b0 = "batch [(''x'', [])] 0" and ?b1 = "batch [(''x'', [5])] 1"
    and ?b2 = "batch [(''x'', [5, 6])] 2"
  have h: "map_of (dt_columns ?b0) ''psp_op'' = None" "map_of (dt_columns ?b1) ''psp_op'' = None"
    "map_of (dt_columns ?b2) ''psp_op'' = None"
    "dt_size ?b0 = 0" "dt_size ?b1 = 1" "dt_size ?b2 = 2"
    by (simp_all add: batch_def)
  have "returned (init ?t world0 ?b1 1 OP_DELETE)"
    by code_simp
  then obtain x where "init ?t world0 ?b1 1 OP_DELETE = Some (Inr x)"
    by (auto dest: returnedE)
  then obtain t' w' dt' where i: "init ?t world0 ?b1 1 OP_DELETE = Some (Inr (t', w', dt'))"
    by (cases x) auto
  from op_column_uniform [of ?b0 OP_DELETE ?t world0 0 t' w' dt']
  obtain c0 where c0: "map_of (dt_columns (process_op_column ?b0 OP_DELETE)) ''psp_op'' = Some c0"
    "map_of (dt_columns ?b0) ''psp_op'' = None \<longrightarrow>
       length (col_data c0) = dt_size ?b0 \<and> col_dtype c0 = DTYPE_UINT8"
    by (elim exE conjE) (rule that; assumption)
  from op_column_uniform [of ?b1 OP_DELETE ?t world0 1 t' w' dt']
  obtain c1 where c1: "map_of (dt_columns (process_op_column ?b1 OP_DELETE)) ''psp_op'' = Some c1"
    "col_data c1 =
       replicate (length (col_data c1)) (S_OP (if OP_DELETE = OP_DELETE then OP_DELETE else OP_INSERT))"
    "map_of (dt_columns ?b1) ''psp_op'' = None \<longrightarrow>
       length (col_data c1) = dt_size ?b1 \<and> col_dtype c1 = DTYPE_UINT8"
    "init ?t world0 ?b1 1 OP_DELETE = Some (Inr (t', w', dt')) \<longrightarrow>
       map_of (dt_columns dt') ''psp_op'' = Some c1 \<and>
       (\<exists>g. gnode_at w' (m_gnode t') = Inr g \<and>
            last (pool_log (w_pool w')) = EvSend (gn_id g) 0 dt')"
    by (elim exE conjE) (rule that; assumption)
  from op_column_uniform [of ?b2 "OP_OTHER 2" ?t world0 0 t' w' dt']
  obtain c2 where c2: "map_of (dt_columns (process_op_column ?b2 (OP_OTHER 2))) ''psp_op'' = Some c2"
    "col_data c2 =
       replicate (length (col_data c2)) (S_OP (if OP_OTHER 2 = OP_DELETE then OP_DELETE else OP_INSERT))"
    "map_of (dt_columns ?b2) ''psp_op'' = None \<longrightarrow>
       length (col_data c2) = dt_size ?b2 \<and> col_dtype c2 = DTYPE_UINT8"
    by (elim exE conjE) (rule that; assumption)
  from c0(2) h have d0: "col_data c0 = []" by simp
  from c1(2,3) h have d1: "col_data c1 = [S_OP OP_DELETE]" by simp
  from c2(2,3) h have d2: "col_data c2 = [S_OP OP_INSERT, S_OP OP_INSERT]"
    by (simp add: numeral_2_eq_2)
  from c1(4) i have s: "map_of (dt_columns dt') ''psp_op'' = Some c1" by simp
  show ?thesis
    using c0(1) c1(1) c2(1) d0 d1 d2 i s by blast
qed

section \<open>Accessors\<close>

lemma assert_simps [simp]:
  "PSP_VERBOSE_ASSERT True msg = Inr ()"
  "PSP_VERBOSE_ASSERT False msg = Inl (PspAbort msg)"
  by (simp_all add: PSP_VERBOSE_ASSERT_def)





section \<open>Construction and the limit\<close>

lemma mod0_free_Inr [simp]: "mod0_free (Inr x)"
  by (simp add: mod0_free_def)

lemma mod0_free_Inl [simp]: "mod0_free (Inl e) \<longleftrightarrow> e \<noteq> ModuloByZero"
  by (simp add: mod0_free_def)

lemma mod0_free_bindE:
  assumes "mod0_free r" and "\<And>x. r = Inr x \<Longrightarrow> mod0_free (f x)"
  shows "mod0_free (bindE r f)"
  using assms by (cases r) simp_all

lemma fill_keys_no_mod0:
  assumes "fill_keys off lim n ridx cols = Some y"
  shows "lim \<noteq> 0 \<longrightarrow> mod0_free y"
  by (rule fill_keys.raw_induct
        [where P = "\<lambda>off lim n ridx cols y. lim \<noteq> 0 \<longrightarrow> mod0_free y", OF _ assms])
     (auto split: if_splits)

lemma clone_column_no_mod0: "mod0_free (clone_column a b dt)"
  by (simp add: clone_column_def split: option.splits)

lemma process_index_column_no_mod0:
  assumes "m_limit t \<noteq> 0" and "process_index_column t dt = Some r"
  shows "mod0_free r"
proof (cases "m_index t = []")
  case True
  obtain kc0 dt1 where a1: "add_column ''psp_pkey'' DTYPE_INT32 True dt = (kc0, dt1)"
    by (cases "add_column ''psp_pkey'' DTYPE_INT32 True dt")
  obtain oc0 dt2 where a2: "add_column ''psp_okey'' DTYPE_INT32 True dt1 = (oc0, dt2)"
    by (cases "add_column ''psp_okey'' DTYPE_INT32 True dt1")
  from assms(2) True a1 a2 obtain y
    where f: "fill_keys (m_offset t) (m_limit t) (dt_size dt2) 0 (kc0, oc0) = Some y"
      and r: "mod0_free y \<longrightarrow> mod0_free r"
    by (auto simp: process_index_column_def split: option.splits sum.splits)
  from fill_keys_no_mod0 [OF f] assms(1) r show ?thesis by blast
next
  case False
  with assms(2)
  have "r = bindE (clone_column (m_index t) ''psp_pkey'' dt) (clone_column (m_index t) ''psp_okey'')"
    by (simp add: process_index_column_def)
  then show ?thesis
    by (simp add: mod0_free_bindE clone_column_no_mod0)
qed

lemma erase_no_mod0: "mod0_free (erase v idx)"
  by (simp add: erase_def)

lemma erase_both_no_mod0: "mod0_free (erase_both cd idx)"
  unfolding erase_both_def by (intro mod0_free_bindE erase_no_mod0) simp

lemma make_gnode_no_mod0: "mod0_free (make_gnode s w)"
  unfolding make_gnode_def
  by (intro mod0_free_bindE) (simp_all add: erase_both_no_mod0 Let_def split: prod.splits)

lemma register_gnode_no_mod0: "mod0_free (register_gnode p w)"
  by (simp add: register_gnode_def Let_def split: option.splits)

lemma gnode_at_no_mod0: "mod0_free (gnode_at w p)"
  by (simp add: gnode_at_def split: option.splits)

lemma assert_no_mod0: "mod0_free (PSP_VERBOSE_ASSERT c msg)"
  by (simp add: PSP_VERBOSE_ASSERT_def)

lemma calculate_offset_no_mod0: "m_limit t \<noteq> 0 \<Longrightarrow> mod0_free (calculate_offset t rc)"
  by (simp add: calculate_offset_def)

lemmas no_mod0 = erase_both_no_mod0 make_gnode_no_mod0 register_gnode_no_mod0
  gnode_at_no_mod0 assert_no_mod0 calculate_offset_no_mod0 clone_column_no_mod0

lemma init_no_mod0:
  assumes "m_limit t \<noteq> 0" and "init t w dt rc op = Some r"
  shows "mod0_free r"
proof -
  from assms(2) obtain r0 where p: "process_index_column t (process_op_column dt op) = Some r0"
    by (auto simp: init_def split: option.splits)
  have r0: "mod0_free r0"
    using assms(1) p by (rule process_index_column_no_mod0)
  from assms(2) p have "r =
          bindE r0 (\<lambda>dt.
          bindE (calculate_offset t rc) (\<lambda>t1.
          bindE (if \<not> m_gnode_set t1 then
                   bindE (make_gnode (get_schema_dt dt) w) (\<lambda>(new_gnode, w1).
                     let t2 = set_gnode t1 (Some new_gnode) in
                     bindE (register_gnode (m_gnode t2) w1) (\<lambda>w2. Inr (t2, w2)))
                 else Inr (t1, w)) (\<lambda>(t2, w2).
          bindE (PSP_VERBOSE_ASSERT (m_gnode_set t2) ''gnode is not set!'') (\<lambda>_.
          bindE (gnode_at w2 (m_gnode t2)) (\<lambda>g.
            Inr (t2\<lparr>m_init := True\<rparr>, pool_send (gn_id g) 0 dt w2, dt))))))"
    by (simp add: init_def)
  then show ?thesis
    using r0 assms(1)
    by (auto intro!: mod0_free_bindE simp: no_mod0 Let_def split: prod.splits)
qed

lemma replace_data_table_no_mod0: "mod0_free (replace_data_table t w dt)"
  unfolding replace_data_table_def
  by (auto intro!: mod0_free_bindE simp: no_mod0 Let_def split: prod.splits)

lemma do_call_no_mod0:
  assumes "m_limit t \<noteq> 0" and "do_call c (t, w) = Some r"
  shows "mod0_free r"
proof (cases c)
  case (Call_init dt rc op)
  with assms(2) obtain r0 where i: "init t w dt rc op = Some r0"
    and r: "r = bindE r0 (\<lambda>(t', w', dt'). Inr (t', w'))"
    by (auto split: option.splits)
  from init_no_mod0 [OF assms(1) i] show ?thesis
    unfolding r by (intro mod0_free_bindE) auto
qed (use assms in \<open>auto intro!: mod0_free_bindE
       simp: no_mod0 replace_data_table_no_mod0 unregister_gnode_def reset_gnode_def
         size_tbl_def get_schema_def get_id_def get_pool_def get_gnode_def
         get_column_names_def get_data_types_def get_index_def\<close>)

lemma run_calls_no_mod0:
  assumes "m_limit t \<noteq> 0" and "run_calls cs (t, w) = Some r"
  shows "mod0_free r"
  using assms
proof (induction cs arbitrary: t w)
  case Nil
  then show ?case by auto
next
  case (Cons c cs)
  show ?case
  proof (cases "do_call c (t, w)")
    case None
    with Cons.prems(2) show ?thesis by simp
  next
    case (Some r1)
    note nm = do_call_no_mod0 [OF Cons.prems(1) Some]
    show ?thesis
    proof (cases r1)
      case (Inl e)
      with Some Cons.prems(2) nm show ?thesis by simp
    next
      case (Inr s1)
      obtain t1 w1 where s1: "s1 = (t1, w1)" by (cases s1)
      from Some Inr s1 have d: "do_call c (t, w) = Some (Inr (t1, w1))" by simp
      from do_call_frame [OF d] Cons.prems(1) have l: "m_limit t1 \<noteq> 0" by simp
      from Cons.prems(2) d have "run_calls cs (t1, w1) = Some r" by simp
      with l show ?thesis by (rule Cons.IH)
    qed
  qed
qed

text \<open>
  C3 (as amended). The constructor checks nothing: for every limit, zero included, it
  returns a table that is not initialised, with that limit and offset 0. No sequence of
  calls changes the limit of a table, whatever the limit is, and on a table whose limit
  is not zero no sequence of calls evaluates a modulo by zero.
\<close>

theorem construction_unchecked:
  "(\<exists>t0. Table_new g p cn ts lim idx = Inr (t0, Suc g) \<and> m_limit t0 = lim \<and>
          m_offset t0 = 0 \<and> \<not> m_init t0) \<and>
   (run_calls cs (t, w) = Some (Inr (t', w')) \<longrightarrow> m_limit t' = m_limit t) \<and>
   (m_limit t \<noteq> 0 \<and> run_calls cs (t, w) = Some r \<longrightarrow> r \<noteq> Inl ModuloByZero)"
proof (intro conjI impI)
  show "\<exists>t0. Table_new g p cn ts lim idx = Inr (t0, Suc g) \<and> m_limit t0 = lim \<and>
          m_offset t0 = 0 \<and> \<not> m_init t0"
    by (simp add: Table_new_def)
next
  assume "run_calls cs (t, w) = Some (Inr (t', w'))"
  then show "m_limit t' = m_limit t"
    using run_calls_frame [of cs t w t' w'] by blast
next
  assume a: "m_limit t \<noteq> 0 \<and> run_calls cs (t, w) = Some r"
  then show "r \<noteq> Inl ModuloByZero"
    using run_calls_no_mod0 [of t cs w r] by (simp add: mod0_free_def)
qed

theorem construction_unchecked_witness:
  "\<exists>t' w' t'' w''.
     run_calls [Call_init (batch [] 2) 2 OP_INSERT, Call_calculate_offset 7, Call_size]
          (new_table 0 3 [], world0) = Some (Inr (t', w')) \<and> m_limit t' = 3 \<and>
     run_calls [Call_set_column_names [''x''], Call_set_gnode None]
          (new_table 0 0 [], world0) = Some (Inr (t'', w'')) \<and> m_limit t'' = 0 \<and>
     Table_new 0 0 [] [] 3 [] = Inr (new_table 0 3 [], 1)"
proof -
  let ?cs = "[Call_init (batch [] 2) 2 OP_INSERT, Call_calculate_offset 7, Call_size]"
  let ?ds = "[Call_set_column_names [''x''], Call_set_gnode None]"
  have "returned (run_calls ?cs (new_table 0 3 [], world0))"
    by code_simp
  then obtain s where "run_calls ?cs (new_table 0 3 [], world0) = Some (Inr s)"
    by (auto dest: returnedE)
  then obtain t' w' where r: "run_calls ?cs (new_table 0 3 [], world0) = Some (Inr (t', w'))"
    by (cases s) auto
  have "returned (run_calls ?ds (new_table 0 0 [], world0))"
    by code_simp
  then obtain s' where "run_calls ?ds (new_table 0 0 [], world0) = Some (Inr s')"
    by (auto dest: returnedE)
  then obtain t'' w'' where r': "run_calls ?ds (new_table 0 0 [], world0) = Some (Inr (t'', w''))"
    by (cases s') auto
  have l: "m_limit (new_table 0 3 []) \<noteq> 0" "m_limit (new_table 0 3 []) = 3"
    "m_limit (new_table 0 0 []) = 0"
    by (simp_all add: new_table_def)
  from construction_unchecked [of 0 0 "[]" "[]" 3 "[]" ?cs "new_table 0 3 []" world0 t' w'
      "Inr (t', w')"] l r
  have a: "m_limit t' = 3" "Table_new 0 0 [] [] 3 [] = Inr (new_table 0 3 [], 1)"
    by (simp_all add: Table_new_def new_table_def)
  from construction_unchecked [of 0 0 "[]" "[]" 0 "[]" ?ds "new_table 0 0 []" world0 t'' w''
      "Inr (t'', w'')"] l r'
  have b: "m_limit t'' = 0" by simp
  from r r' a b show ?thesis by blast
qed

text \<open>
  The claim as stated fails: the constructor returns a table for the limit 0, and the
  first ingest into it, even of an empty batch, evaluates \<^verbatim>\<open>% m_limit\<close> with the limit 0.
\<close>

theorem construction_unchecked_counterexample:
  "Table_new 0 0 [] [] 0 [] = Inr (new_table 0 0 [], 1) \<and>
   init (new_table 0 0 []) world0 (batch [] 0) 0 OP_INSERT = Some (Inl ModuloByZero)"
proof (intro conjI)
  show "Table_new 0 0 [] [] 0 [] = Inr (new_table 0 0 [], 1)"
    by (simp add: Table_new_def new_table_def)
  show "init (new_table 0 0 []) world0 (batch [] 0) 0 OP_INSERT = Some (Inl ModuloByZero)"
    by code_simp
qed

section \<open>Rebinding\<close>

lemma make_gnode_node:
  assumes "make_gnode s w = Inr (a, w1)"
  shows "a = length (w_gnodes w)"
    and "\<exists>out. w1 = w\<lparr>w_gnodes := w_gnodes w @
            [\<lparr>gn_tblschema = out, gn_portschema = s, gn_inited = True,
              gn_id = 0, gn_table_size = 0\<rparr>]\<rparr>"
  using assms
  by (auto simp: make_gnode_def bindE_eq_Inr make_shared_gnode_def gnode_init_def Let_def
      split: if_splits)

lemma register_fresh:
  "register_gnode (Some (length gs)) (w\<lparr>w_gnodes := gs @ [n]\<rparr>) =
     Inr (w\<lparr>w_gnodes := gs @ [n\<lparr>gn_id := pool_next_id (w_pool w)\<rparr>],
            w_pool := (w_pool w)\<lparr>pool_next_id := Suc (pool_next_id (w_pool w)),
              pool_log := pool_log (w_pool w) @
                [EvRegister (length gs) (pool_next_id (w_pool w))]\<rparr>\<rparr>)"
  by (simp add: register_gnode_def Let_def)

lemma replace_data_table_result:
  assumes "m_init t" and "make_gnode (get_schema_dt dt) w = Inr (a, w1)"
  shows "\<exists>out. replace_data_table t w dt =
     Inr (set_gnode t (Some (length (w_gnodes w))),
          w\<lparr>w_gnodes := w_gnodes w @
                 [\<lparr>gn_tblschema = out, gn_portschema = get_schema_dt dt, gn_inited = True,
                   gn_id = pool_next_id (w_pool w), gn_table_size = 0\<rparr>],
             w_pool := (w_pool w)\<lparr>pool_next_id := Suc (pool_next_id (w_pool w)),
               pool_log := pool_log (w_pool w) @
                 [EvRegister (length (w_gnodes w)) (pool_next_id (w_pool w)),
                  EvSend (pool_next_id (w_pool w)) 0 dt, EvProcess]\<rparr>\<rparr>)"
proof -
  from make_gnode_node [OF assms(2)] obtain out where a: "a = length (w_gnodes w)"
    and w1: "w1 = w\<lparr>w_gnodes := w_gnodes w @
            [\<lparr>gn_tblschema = out, gn_portschema = get_schema_dt dt, gn_inited = True,
              gn_id = 0, gn_table_size = 0\<rparr>]\<rparr>"
    by blast
  show ?thesis
    by (rule exI [of _ out])
      (simp add: replace_data_table_def assms a w1 set_gnode_def register_fresh gnode_at_def
        pool_send_def pool_process_def pool_event_add_def)
qed

lemma replace_data_table_make_gnode:
  assumes "replace_data_table t w dt = Inr (t', w')"
  obtains a w1 where "make_gnode (get_schema_dt dt) w = Inr (a, w1)"
  using assms
  by (auto simp: replace_data_table_def bindE_eq_Inr)

text \<open>
  What \<open>replace_data_table\<close> does when it returns: it fails with
  \<open>UninitializedError\<close> on a table that is not initialised, and otherwise the table is
  bound to a node that did not exist before, built from the schema of the new block,
  initialised and registered; the pool was asked, in this order, to register the node,
  to take the new block as it was given (no operation tag, no keys added) on port 0, and
  to process. The identifier, the declared column names and types, the limit, the
  offset, the index name and the pool of the table are unchanged.
\<close>

lemma replace_data_table_effect:
  "(\<not> m_init t \<longrightarrow> replace_data_table t w dt = Inl UninitializedError) \<and>
   (replace_data_table t w dt = Inr (t', w') \<longrightarrow>
      m_init t \<and> m_init t' \<and> m_id t' = m_id t \<and> m_column_names t' = m_column_names t \<and>
      m_data_types t' = m_data_types t \<and> m_limit t' = m_limit t \<and>
      m_offset t' = m_offset t \<and> m_index t' = m_index t \<and> m_pool t' = m_pool t \<and>
      m_gnode t' = Some (length (w_gnodes w)) \<and> gnode_at w (m_gnode t') = Inl NullGnode \<and>
      (\<forall>g0. gnode_at w (m_gnode t) = Inr g0 \<longrightarrow> m_gnode t' \<noteq> m_gnode t) \<and>
      (\<exists>g. gnode_at w' (m_gnode t') = Inr g \<and> gn_portschema g = get_schema_dt dt \<and>
           gn_inited g \<and> gn_id g = pool_next_id (w_pool w) \<and>
           pool_log (w_pool w') = pool_log (w_pool w) @
             [EvRegister (length (w_gnodes w)) (gn_id g), EvSend (gn_id g) 0 dt, EvProcess]))"
proof (intro conjI impI)
  assume "\<not> m_init t"
  then show "replace_data_table t w dt = Inl UninitializedError"
    by (simp add: replace_data_table_def PSP_VERBOSE_ASSERT_def)
next
  assume r: "replace_data_table t w dt = Inr (t', w')"
  show i: "m_init t" using r by (rule replace_data_table_frame)
  from r obtain a0 w0 where "make_gnode (get_schema_dt dt) w = Inr (a0, w0)"
    by (rule replace_data_table_make_gnode)
  from replace_data_table_result [OF i this] r obtain out where
    t': "t' = set_gnode t (Some (length (w_gnodes w)))"
    and w': "w' = w\<lparr>w_gnodes := w_gnodes w @
                 [\<lparr>gn_tblschema = out, gn_portschema = get_schema_dt dt, gn_inited = True,
                   gn_id = pool_next_id (w_pool w), gn_table_size = 0\<rparr>],
             w_pool := (w_pool w)\<lparr>pool_next_id := Suc (pool_next_id (w_pool w)),
               pool_log := pool_log (w_pool w) @
                 [EvRegister (length (w_gnodes w)) (pool_next_id (w_pool w)),
                  EvSend (pool_next_id (w_pool w)) 0 dt, EvProcess]\<rparr>\<rparr>"
    by auto
  show "m_init t'" "m_id t' = m_id t" "m_column_names t' = m_column_names t"
    "m_data_types t' = m_data_types t" "m_limit t' = m_limit t" "m_offset t' = m_offset t"
    "m_index t' = m_index t" "m_pool t' = m_pool t" "m_gnode t' = Some (length (w_gnodes w))"
    using i by (simp_all add: t' set_gnode_def)
  show n: "gnode_at w (m_gnode t') = Inl NullGnode"
    by (simp add: t' set_gnode_def gnode_at_def)
  show "\<forall>g0. gnode_at w (m_gnode t) = Inr g0 \<longrightarrow> m_gnode t' \<noteq> m_gnode t"
    using n by auto
  show "\<exists>g. gnode_at w' (m_gnode t') = Inr g \<and> gn_portschema g = get_schema_dt dt \<and>
           gn_inited g \<and> gn_id g = pool_next_id (w_pool w) \<and>
           pool_log (w_pool w') = pool_log (w_pool w) @
             [EvRegister (length (w_gnodes w)) (gn_id g), EvSend (gn_id g) 0 dt, EvProcess]"
    by (simp add: t' w' set_gnode_def gnode_at_def)
qed

text \<open>
  C4. \<open>replace_data_table\<close> should bind an initialised table to a new node built from
  the schema of the new block. It builds the node with \<open>make_gnode\<close>, whose second
  erasure uses a position of the unmodified schema (see C7): after a successful ingest,
  a block with the columns \<open>psp_pkey\<close>, \<open>psp_op\<close> sends that erasure past the end of
  the vectors and no node is bound, while the block with the same columns in the order
  \<open>psp_op\<close>, \<open>psp_pkey\<close> is accepted.
\<close>

theorem replace_data_table_stale_index:
  "returned (init (new_table 7 3 []) world0 (batch [(''x'', [5])] 1) 1 OP_INSERT) \<and>
   run_calls [Call_init (batch [(''x'', [5])] 1) 1 OP_INSERT,
              Call_replace_data_table (batch [(''psp_pkey'', [0]), (''psp_op'', [0])] 1)]
     (new_table 7 3 [], world0) = Some (Inl EraseOutOfRange) \<and>
   returned (run_calls [Call_init (batch [(''x'', [5])] 1) 1 OP_INSERT,
              Call_replace_data_table (batch [(''psp_op'', [0]), (''psp_pkey'', [0])] 1)]
     (new_table 7 3 [], world0))"
proof (intro conjI)
  show "returned (init (new_table 7 3 []) world0 (batch [(''x'', [5])] 1) 1 OP_INSERT)"
    by code_simp
  show "run_calls [Call_init (batch [(''x'', [5])] 1) 1 OP_INSERT,
              Call_replace_data_table (batch [(''psp_pkey'', [0]), (''psp_op'', [0])] 1)]
     (new_table 7 3 [], world0) = Some (Inl EraseOutOfRange)"
    by code_simp
  show "returned (run_calls [Call_init (batch [(''x'', [5])] 1) 1 OP_INSERT,
              Call_replace_data_table (batch [(''psp_op'', [0]), (''psp_pkey'', [0])] 1)]
     (new_table 7 3 [], world0))"
    by code_simp
qed

section \<open>The schema of a node\<close>

text \<open>
  C7. \<open>make_gnode\<close> should give the node the input schema without the columns
  \<open>psp_pkey\<close> and \<open>psp_op\<close>, the other columns in their order, and keep the input
  schema itself. It looks up the position of \<open>psp_op\<close> in the input schema after
  \<open>psp_pkey\<close> has been erased from the copies, so when \<open>psp_pkey\<close> comes first the
  second erasure hits the column after \<open>psp_op\<close>: for the columns \<open>psp_pkey\<close>,
  \<open>psp_op\<close>, \<open>x\<close> the node's schema is \<open>psp_op\<close> alone, and for the columns
  \<open>psp_pkey\<close>, \<open>psp_op\<close> the erasure is past the end of the vectors.
\<close>

theorem make_gnode_stale_index:
  "make_gnode \<lparr>sc_columns = [''psp_pkey'', ''psp_op'', ''x''],
               sc_types = [DTYPE_INT32, DTYPE_UINT8, DTYPE_OTHER 0]\<rparr> world0 =
     Inr (0, \<lparr>w_gnodes =
               [\<lparr>gn_tblschema = \<lparr>sc_columns = [''psp_op''], sc_types = [DTYPE_UINT8]\<rparr>,
                 gn_portschema = \<lparr>sc_columns = [''psp_pkey'', ''psp_op'', ''x''],
                                  sc_types = [DTYPE_INT32, DTYPE_UINT8, DTYPE_OTHER 0]\<rparr>,
                 gn_inited = True, gn_id = 0, gn_table_size = 0\<rparr>],
              w_pool = \<lparr>pool_next_id = 0, pool_log = []\<rparr>\<rparr>) \<and>
   make_gnode \<lparr>sc_columns = [''psp_pkey'', ''psp_op''],
               sc_types = [DTYPE_INT32, DTYPE_UINT8]\<rparr> world0 = Inl EraseOutOfRange"
  by code_simp

lemma index_of_less: "name \<in> set cs \<Longrightarrow> index_of cs name < length cs"
  by (induction cs) auto

lemma filter_zip_absent:
  "name \<notin> set cs \<Longrightarrow> filter (\<lambda>p. fst p \<noteq> name) (zip cs ts) = zip cs ts"
  by (induction cs arbitrary: ts) (auto simp: zip_Cons1 split: list.splits)

lemma erase_both_without:
  assumes "distinct cs" and "length ts = length cs" and "name \<in> set cs"
  shows "erase_both (cs, ts) (index_of cs name) = Inr (schema_without name (cs, ts))"
  using assms
proof (induction cs arbitrary: ts)
  case Nil
  then show ?case by simp
next
  case (Cons c cs)
  then obtain ty ts' where ts: "ts = ty # ts'" by (cases ts) auto
  show ?case
  proof (cases "c = name")
    case True
    with Cons.prems have "name \<notin> set cs" by simp
    then show ?thesis
      using True by (simp add: ts erase_both_def erase_def schema_without_def filter_zip_absent)
        (use Cons.prems ts in simp)
  next
    case False
    with Cons.prems ts have d: "distinct cs" and l: "length ts' = length cs" and m: "name \<in> set cs"
      by simp_all
    from Cons.IH [OF d l m] index_of_less [OF m] l show ?thesis
      using False by (auto simp: ts erase_both_def erase_def schema_without_def bindE_eq_Inr split: if_splits)
  qed
qed


lemma index_of_filter:
  "index_of cs a < index_of cs b \<Longrightarrow> index_of (filter (\<lambda>x. x \<noteq> b) cs) a = index_of cs a"
  by (induction cs) (auto split: if_splits)

lemma fst_schema_without:
  "length ts = length cs \<Longrightarrow> fst (schema_without name (cs, ts)) = filter (\<lambda>x. x \<noteq> name) cs"
proof -
  assume l: "length ts = length cs"
  have "map fst (filter (\<lambda>p. fst p \<noteq> name) (zip cs ts)) =
        filter (\<lambda>x. x \<noteq> name) (map fst (zip cs ts))"
    by (simp add: filter_map comp_def)
  with l show ?thesis by (simp add: schema_without_def)
qed

lemma length_schema_without:
  "length (snd (schema_without name cd)) = length (fst (schema_without name cd))"
  by (simp add: schema_without_def)

lemma schema_without_absent:
  "length ts = length cs \<Longrightarrow> name \<notin> set cs \<Longrightarrow> schema_without name (cs, ts) = (cs, ts)"
  by (simp add: schema_without_def filter_zip_absent)

lemma erase_both_without_op:
  assumes d: "distinct cs" and l: "length ts = length cs"
    and op: "''psp_op'' \<in> set cs"
    and ord: "''psp_pkey'' \<in> set cs \<Longrightarrow> index_of cs ''psp_op'' < index_of cs ''psp_pkey''"
  shows "erase_both (schema_without ''psp_pkey'' (cs, ts)) (index_of cs ''psp_op'') =
           Inr (schema_without ''psp_op'' (schema_without ''psp_pkey'' (cs, ts)))"
proof (cases "''psp_pkey'' \<in> set cs")
  case False
  with l have "schema_without ''psp_pkey'' (cs, ts) = (cs, ts)"
    by (simp add: schema_without_absent)
  with erase_both_without [OF d l op] show ?thesis by simp
next
  case True
  obtain cs1 ts1 where s1: "schema_without ''psp_pkey'' (cs, ts) = (cs1, ts1)"
    by (cases "schema_without ''psp_pkey'' (cs, ts)")
  have c1: "cs1 = filter (\<lambda>x. x \<noteq> ''psp_pkey'') cs"
    using fst_schema_without [OF l, of "''psp_pkey''"] s1 by simp
  have l1: "length ts1 = length cs1"
    using length_schema_without [of "''psp_pkey''" "(cs, ts)"] s1 by simp
  have d1: "distinct cs1" unfolding c1 using d by simp
  have o1: "''psp_op'' \<in> set cs1" unfolding c1 using op by simp
  have "index_of cs1 ''psp_op'' = index_of cs ''psp_op''"
    unfolding c1 using ord [OF True] by (rule index_of_filter)
  with erase_both_without [OF d1 l1 o1] show ?thesis by (simp add: s1)
qed

text \<open>
  Where \<open>make_gnode\<close> does give the node the input schema without \<open>psp_pkey\<close> and
  \<open>psp_op\<close>: on a schema with distinct column names and as many types, in which
  \<open>psp_op\<close> comes before \<open>psp_pkey\<close> when it has both (the order \<open>init\<close> adds them in).
\<close>

lemma make_gnode_strips:
  assumes d: "distinct (sc_columns s)" and l: "length (sc_types s) = length (sc_columns s)"
    and ord: "has_column s ''psp_pkey'' \<and> has_column s ''psp_op'' \<longrightarrow>
                get_colidx s ''psp_op'' < get_colidx s ''psp_pkey''"
  shows "make_gnode s w =
     Inr (length (w_gnodes w),
          w\<lparr>w_gnodes := w_gnodes w @
            [\<lparr>gn_tblschema =
                \<lparr>sc_columns = filter (\<lambda>n. n \<noteq> ''psp_pkey'' \<and> n \<noteq> ''psp_op'') (sc_columns s),
                 sc_types = map snd (filter (\<lambda>p. fst p \<noteq> ''psp_pkey'' \<and> fst p \<noteq> ''psp_op'')
                                      (zip (sc_columns s) (sc_types s)))\<rparr>,
              gn_portschema = s, gn_inited = True, gn_id = 0, gn_table_size = 0\<rparr>]\<rparr>)"
proof -
  let ?cs = "sc_columns s" and ?ts = "sc_types s"
  let ?cd1 = "schema_without ''psp_pkey'' (?cs, ?ts)"
  let ?cd2 = "schema_without ''psp_op'' ?cd1"
  have e1: "(if has_column s ''psp_pkey''
            then erase_both (?cs, ?ts) (get_colidx s ''psp_pkey'')
            else Inr (?cs, ?ts)) = Inr ?cd1"
  proof (cases "has_column s ''psp_pkey''")
    case True
    then show ?thesis
      using erase_both_without [OF d l, of "''psp_pkey''"]
      by (simp add: has_column_def get_colidx_def)
  next
    case False
    then show ?thesis
      using schema_without_absent [OF l, of "''psp_pkey''"] by (simp add: has_column_def)
  qed
  have e2: "(if has_column s ''psp_op''
            then erase_both ?cd1 (get_colidx s ''psp_op'')
            else Inr ?cd1) = Inr ?cd2"
  proof (cases "has_column s ''psp_op''")
    case True
    then have op: "''psp_op'' \<in> set ?cs" by (simp add: has_column_def)
    have "''psp_pkey'' \<in> set ?cs \<Longrightarrow> index_of ?cs ''psp_op'' < index_of ?cs ''psp_pkey''"
      using ord True by (simp add: has_column_def get_colidx_def)
    from erase_both_without_op [OF d l op this] True show ?thesis
      by (simp add: get_colidx_def)
  next
    case False
    obtain cs1 ts1 where s1: "?cd1 = (cs1, ts1)" by (cases ?cd1)
    have c1: "cs1 = filter (\<lambda>x. x \<noteq> ''psp_pkey'') ?cs"
      using fst_schema_without [OF l, of "''psp_pkey''"] s1 by simp
    have l1: "length ts1 = length cs1"
      using length_schema_without [of "''psp_pkey''" "(?cs, ?ts)"] s1 by simp
    have "''psp_op'' \<notin> set cs1" unfolding c1 using False by (simp add: has_column_def)
    with l1 have "schema_without ''psp_op'' (cs1, ts1) = (cs1, ts1)"
      by (rule schema_without_absent)
    with False show ?thesis by (simp add: s1)
  qed
  have f: "fst ?cd2 = filter (\<lambda>n. n \<noteq> ''psp_pkey'' \<and> n \<noteq> ''psp_op'') ?cs"
  proof -
    obtain cs1 ts1 where s1: "?cd1 = (cs1, ts1)" by (cases ?cd1)
    have c1: "cs1 = filter (\<lambda>x. x \<noteq> ''psp_pkey'') ?cs"
      using fst_schema_without [OF l, of "''psp_pkey''"] s1 by simp
    have l1: "length ts1 = length cs1"
      using length_schema_without [of "''psp_pkey''" "(?cs, ?ts)"] s1 by simp
    from fst_schema_without [OF l1, of "''psp_op''"] show ?thesis
      by (simp add: s1 c1 conj_commute)
  qed
  have z: "zip (fst ?cd1) (snd ?cd1) = filter (\<lambda>p. fst p \<noteq> ''psp_pkey'') (zip ?cs ?ts)"
    by (simp add: schema_without_def zip_map_fst_snd)
  have g: "snd ?cd2 = map snd (filter (\<lambda>p. fst p \<noteq> ''psp_pkey'' \<and> fst p \<noteq> ''psp_op'')
                                      (zip ?cs ?ts))"
    unfolding schema_without_def [of "''psp_op''"] snd_conv z by (simp add: conj_commute)
  show ?thesis
    unfolding make_gnode_def e1 e2 bindE_Inr
    by (simp add: f g make_shared_gnode_def gnode_init_def)
qed

section \<open>An ingest returns\<close>

text \<open>
  The loop of \<open>process_index_column\<close> ends on a batch of fewer than \<open>2^32\<close> rows,
  \<open>make_gnode\<close> returns unless its second erasure is past the end, and so \<open>init\<close>
  returns on a fresh batch.
\<close>

lemma fill_keys_total:
  assumes "n < 2 ^ 32" and "lim \<noteq> 0" and "unat ridx \<le> n"
    and "n \<le> length (col_data kc)" and "n \<le> length (col_data oc)"
  shows "\<exists>r. fill_keys off lim n ridx (kc, oc) = Some (Inr r)"
  using assms
proof (induction "n - unat ridx" arbitrary: ridx kc oc)
  case 0
  then have "\<not> unat ridx < n" by simp
  from fill_keys_stop [OF this] show ?case by blast
next
  case (Suc k)
  then have lt: "unat ridx < n" by simp
  let ?v = "(ridx + off) mod lim"
  let ?kc = "set_nth_int32 kc (unat ridx) ?v" and ?oc = "set_nth_int32 oc (unat ridx) ?v"
  have u: "unat (ridx + 1) = Suc (unat ridx)"
    using lt Suc.prems(1) by (rule unat_Suc32)
  have k: "k = n - unat (ridx + 1)" using Suc.hyps(2) u by simp
  have le: "unat (ridx + 1) \<le> n" using lt u by simp
  have len: "n \<le> length (col_data ?kc)" "n \<le> length (col_data ?oc)"
    using Suc.prems(4,5) by (simp_all add: set_nth_int32_def)
  from Suc.hyps(1) [OF k Suc.prems(1,2) le len]
  obtain r where r: "fill_keys off lim n (ridx + 1) (?kc, ?oc) = Some (Inr r)" by blast
  have "fill_keys off lim n ridx (kc, oc) = Some (Inr r)"
    using lt Suc.prems(2,4,5) r
    by (subst fill_keys.simps) (simp add: in_rows_def)
  then show ?case by blast
qed

lemma names_put_column:
  "column_names (put_column name c dt) =
     (if name \<in> set (column_names dt) then column_names dt else column_names dt @ [name])"
  by (simp add: column_names_def put_column_def update_keys)

lemma names_add_column:
  assumes "add_column name dtype st dt = (c, dt1)"
  shows "column_names dt1 =
     (if name \<in> set (column_names dt) then column_names dt else column_names dt @ [name])"
proof (cases "map_of (dt_columns dt) name")
  case None
  then have "name \<notin> set (column_names dt)"
    by (simp add: column_names_def map_of_eq_None_iff)
  with None assms show ?thesis
    by (auto simp: add_column_def column_names_def Let_def)
next
  case (Some c0)
  then have "(name, c0) \<in> set (dt_columns dt)" by (rule map_of_SomeD)
  then have "name \<in> set (column_names dt)"
    unfolding column_names_def by force
  with Some assms show ?thesis
    by (auto simp: add_column_def)
qed

lemma map_of_None_names: "map_of (dt_columns dt) name = None \<longleftrightarrow> name \<notin> set (column_names dt)"
  by (simp add: column_names_def map_of_eq_None_iff)

lemma names_process_op_column:
  "column_names (process_op_column dt op) =
     (if ''psp_op'' \<in> set (column_names dt) then column_names dt else column_names dt @ [''psp_op''])"
proof -
  obtain c dt1 where a: "add_column ''psp_op'' DTYPE_UINT8 False dt = (c, dt1)"
    by (cases "add_column ''psp_op'' DTYPE_UINT8 False dt")
  show ?thesis
    unfolding process_op_column_eq [OF a] using names_add_column [OF a]
    by (simp add: names_put_column)
qed

text \<open>The key step returns on a batch of fewer than \<open>2^32\<close> rows without key columns.\<close>

lemma process_index_column_returns:
  assumes "m_index t = []" and "m_limit t \<noteq> 0" and "dt_size dt < 2 ^ 32"
    and "''psp_pkey'' \<notin> set (column_names dt)" and "''psp_okey'' \<notin> set (column_names dt)"
  shows "\<exists>dt'. process_index_column t dt = Some (Inr dt') \<and>
           column_names dt' = column_names dt @ [''psp_pkey'', ''psp_okey'']"
proof -
  obtain kc0 dt1 where a1: "add_column ''psp_pkey'' DTYPE_INT32 True dt = (kc0, dt1)"
    by (cases "add_column ''psp_pkey'' DTYPE_INT32 True dt")
  obtain oc0 dt2 where a2: "add_column ''psp_okey'' DTYPE_INT32 True dt1 = (oc0, dt2)"
    by (cases "add_column ''psp_okey'' DTYPE_INT32 True dt1")
  have n1: "column_names dt1 = column_names dt @ [''psp_pkey'']"
    using names_add_column [OF a1] assms(4) by simp
  have n2: "column_names dt2 = column_names dt @ [''psp_pkey'', ''psp_okey'']"
    using names_add_column [OF a2] assms(5) by (simp add: n1)
  have s1: "dt_size dt1 = dt_size dt" using add_column_cases(2) [OF a1] .
  have s2: "dt_size dt2 = dt_size dt" using add_column_cases(2) [OF a2] s1 by simp
  have k: "col_data kc0 = replicate (dt_size dt) S_NONE"
    using add_column_cases(3) [OF a1] assms(4) by (simp add: map_of_None_names)
  have "map_of (dt_columns dt1) ''psp_okey'' = None"
    using assms(5) by (simp add: map_of_None_names n1)
  from add_column_cases(3) [OF a2 this]
  have o: "col_data oc0 = replicate (dt_size dt) S_NONE" by (simp add: s1)
  have "\<exists>r. fill_keys (m_offset t) (m_limit t) (dt_size dt2) 0 (kc0, oc0) = Some (Inr r)"
    unfolding s2 by (rule fill_keys_total [OF assms(3) assms(2)]) (simp_all add: k o)
  then obtain kc oc
    where f: "fill_keys (m_offset t) (m_limit t) (dt_size dt2) 0 (kc0, oc0) = Some (Inr (kc, oc))"
    by auto
  let ?dt' = "put_column ''psp_okey'' oc (put_column ''psp_pkey'' kc dt2)"
  have "process_index_column t dt = Some (Inr ?dt')"
    by (simp add: process_index_column_def assms(1) a1 a2 f)
  moreover have "column_names ?dt' = column_names dt @ [''psp_pkey'', ''psp_okey'']"
    by (simp add: names_put_column n2)
  ultimately show ?thesis by blast
qed

lemma index_of_append_fresh: "x \<notin> set xs \<Longrightarrow> index_of (xs @ x # ys) x = length xs"
  by (induction xs) auto

lemma index_of_le: "index_of cs name \<le> length cs"
  by (induction cs) auto

lemma erase_both_returns:
  assumes "i < length cs" and "length ts = length cs"
  shows "\<exists>cs' ts'. erase_both (cs, ts) i = Inr (cs', ts') \<and>
           Suc (length cs') = length cs \<and> length ts' = length cs'"
  using assms by (auto simp: erase_both_def erase_def)

lemma make_gnode_returns:
  assumes l: "length (sc_types s) = length (sc_columns s)" and ok: "\<not> erase_past_end s"
  shows "\<exists>a w1. make_gnode s w = Inr (a, w1)"
proof -
  let ?cs = "sc_columns s" and ?ts = "sc_types s"
  have "\<exists>cs1 ts1. (if has_column s ''psp_pkey''
            then erase_both (?cs, ?ts) (get_colidx s ''psp_pkey'')
            else Inr (?cs, ?ts)) = Inr (cs1, ts1) \<and> length ts1 = length cs1 \<and>
          (if has_column s ''psp_pkey'' then Suc (length cs1) = length ?cs
           else length cs1 = length ?cs)"
  proof (cases "has_column s ''psp_pkey''")
    case True
    then have "get_colidx s ''psp_pkey'' < length ?cs"
      by (simp add: has_column_def get_colidx_def index_of_less)
    from erase_both_returns [OF this l] True show ?thesis by auto
  next
    case False
    with l show ?thesis by simp
  qed
  then obtain cs1 ts1 where e1: "(if has_column s ''psp_pkey''
            then erase_both (?cs, ?ts) (get_colidx s ''psp_pkey'')
            else Inr (?cs, ?ts)) = Inr (cs1, ts1)"
    and l1: "length ts1 = length cs1"
    and n1: "if has_column s ''psp_pkey'' then Suc (length cs1) = length ?cs
             else length cs1 = length ?cs"
    by blast
  have "\<exists>cd2. (if has_column s ''psp_op''
            then erase_both (cs1, ts1) (get_colidx s ''psp_op'')
            else Inr (cs1, ts1)) = Inr cd2"
  proof (cases "has_column s ''psp_op''")
    case True
    then have lt: "get_colidx s ''psp_op'' < length ?cs"
      by (simp add: has_column_def get_colidx_def index_of_less)
    have "get_colidx s ''psp_op'' < length cs1"
    proof (cases "has_column s ''psp_pkey''")
      case True
      with ok \<open>has_column s ''psp_op''\<close> have "Suc (get_colidx s ''psp_op'') \<noteq> length ?cs"
        by (simp add: erase_past_end_def)
      with lt n1 True show ?thesis by simp
    next
      case False
      with lt n1 show ?thesis by simp
    qed
    from erase_both_returns [OF this l1] True show ?thesis by auto
  next
    case False
    then show ?thesis by simp
  qed
  then obtain cd2 where e2: "(if has_column s ''psp_op''
            then erase_both (cs1, ts1) (get_colidx s ''psp_op'')
            else Inr (cs1, ts1)) = Inr cd2"
    by blast
  show ?thesis
    unfolding make_gnode_def e1 bindE_Inr e2
    by (simp add: make_shared_gnode_def Let_def)
qed

lemma schema_of_batch:
  "sc_columns (get_schema_dt dt) = column_names dt"
  "length (sc_types (get_schema_dt dt)) = length (sc_columns (get_schema_dt dt))"
  by (simp_all add: get_schema_dt_def column_names_def)

text \<open>When \<open>init\<close> goes on after the key step.\<close>

lemma init_after_key_step:
  assumes lim: "m_limit t \<noteq> 0"
    and key: "process_index_column t (process_op_column dt op) = Some (Inr dt')"
    and node: "node_usable t w"
    and sch: "\<not> m_gnode_set t \<longrightarrow> \<not> erase_past_end (get_schema_dt dt')"
  shows "\<exists>t' w'. init t w dt rc op = Some (Inr (t', w', dt'))"
proof (cases "m_gnode_set t")
  case True
  with node obtain g where "gnode_at w (m_gnode t) = Inr g"
    by (auto simp: node_usable_def split: sum.splits)
  with True lim key show ?thesis
    by (simp add: init_def calculate_offset_def)
next
  case False
  with sch have "\<not> erase_past_end (get_schema_dt dt')" by simp
  from make_gnode_returns [OF schema_of_batch(2) this]
  obtain a w1 where m: "make_gnode (get_schema_dt dt') w = Inr (a, w1)" by blast
  from make_gnode_node [OF m] obtain out where a: "a = length (w_gnodes w)"
    and w1: "w1 = w\<lparr>w_gnodes := w_gnodes w @
            [\<lparr>gn_tblschema = out, gn_portschema = get_schema_dt dt', gn_inited = True,
              gn_id = 0, gn_table_size = 0\<rparr>]\<rparr>"
    by blast
  show ?thesis
    using False lim key
    by (simp add: init_def calculate_offset_def m a w1 set_gnode_def register_fresh gnode_at_def)
qed

lemma fresh_batch_not_past_end:
  assumes "column_names dt' = ns @ [''psp_op'', ''psp_pkey'', ''psp_okey'']"
    and "''psp_op'' \<notin> set ns"
  shows "\<not> erase_past_end (get_schema_dt dt')"
  using assms
  by (simp add: erase_past_end_def get_colidx_def schema_of_batch index_of_append_fresh)

lemma init_returns:
  assumes lim: "m_limit t \<noteq> 0" and fresh: "fresh_batch dt" and node: "node_usable t w"
    and idx: "if m_index t = [] then dt_size dt < 2 ^ 32 else m_index t \<in> set (column_names dt)"
  shows "\<exists>t' w' dt'. init t w dt rc op = Some (Inr (t', w', dt'))"
proof -
  let ?d = "process_op_column dt op"
  have nd: "column_names ?d = column_names dt @ [''psp_op'']"
    using fresh by (simp add: names_process_op_column fresh_batch_def)
  have "\<exists>dt'. process_index_column t ?d = Some (Inr dt') \<and>
          column_names dt' = column_names dt @ [''psp_op'', ''psp_pkey'', ''psp_okey'']"
  proof (cases "m_index t = []")
    case True
    with idx have "dt_size ?d < 2 ^ 32" by (simp add: process_op_column_frame)
    from process_index_column_returns [OF True lim this, unfolded nd] fresh
    show ?thesis by (simp add: fresh_batch_def)
  next
    case False
    with idx have "m_index t \<in> set (column_names ?d)" by (simp add: nd)
    then obtain c where c: "map_of (dt_columns ?d) (m_index t) = Some c"
      using map_of_None_names [of ?d "m_index t"] by (cases "map_of (dt_columns ?d) (m_index t)") auto
    from process_index_column_clone [OF False c] fresh show ?thesis
      by (simp add: names_put_column nd fresh_batch_def)
  qed
  then obtain dt' where key: "process_index_column t ?d = Some (Inr dt')"
    and n: "column_names dt' = column_names dt @ [''psp_op'', ''psp_pkey'', ''psp_okey'']"
    by blast
  have "''psp_op'' \<notin> set (column_names dt)"
    using fresh by (simp add: fresh_batch_def)
  with n have "\<not> erase_past_end (get_schema_dt dt')"
    by (rule fresh_batch_not_past_end)
  with init_after_key_step [OF lim key node, of rc] show ?thesis by blast
qed

lemma replace_data_table_returns:
  assumes "m_init t" and "\<not> erase_past_end (get_schema_dt dt)"
  shows "\<exists>t' w'. replace_data_table t w dt = Inr (t', w')"
proof -
  from make_gnode_returns [OF schema_of_batch(2) assms(2)]
  obtain a w1 where "make_gnode (get_schema_dt dt) w = Inr (a, w1)" by blast
  from replace_data_table_result [OF assms(1) this] show ?thesis by blast
qed

section \<open>The keys as stored\<close>

lemma signed_val_eq_iff:
  fixes a K :: nat
  assumes "a < 2 ^ 32"
  shows "(if a < 2 ^ 31 then int a else int a - 2 ^ 32) = int K \<longleftrightarrow> a = K \<and> K < 2 ^ 31"
  using assms by auto

lemma signed_val_wrapped_iff:
  fixes a :: nat
  shows "(if a < 2 ^ 31 then int a else int a - 2 ^ 32) = int a - 2 ^ 32 \<longleftrightarrow> 2 ^ 31 - 1 < a"
  by auto

lemma signed_val_inj:
  fixes a b :: nat
  assumes "a < 2 ^ 32" and "b < 2 ^ 32"
    and "(if a < 2 ^ 31 then int a else int a - 2 ^ 32) =
         (if b < 2 ^ 31 then int b else int b - 2 ^ 32)"
  shows "a = b"
  using assms by (auto split: if_splits)

lemma key_cell_eq_iff:
  assumes "i < 2 ^ 32"
  shows "key_cell off lim i = S_INT32 (int K) \<longleftrightarrow>
           ((i + unat off) mod 2 ^ 32) mod unat lim = K \<and> K < 2 ^ 31"
proof -
  let ?v = "(of_nat i + off) mod lim"
  have u: "unat ?v = ((i + unat off) mod 2 ^ 32) mod unat lim"
    using assms by (rule key_unat)
  have b: "unat ?v < 2 ^ 32"
    using unsigned_less [of ?v, where ?'a = nat] by simp
  have "sint ?v = int K \<longleftrightarrow> unat ?v = K \<and> K < 2 ^ 31"
    unfolding sint_uint32 by (rule signed_val_eq_iff [OF b])
  then show ?thesis
    unfolding key_cell_def u by simp
qed

lemma key_cell_wrapped_iff:
  assumes "i < 2 ^ 32"
  shows "key_cell off lim i =
           S_INT32 (int (((i + unat off) mod 2 ^ 32) mod unat lim) - 2 ^ 32) \<longleftrightarrow>
         2 ^ 31 - 1 < ((i + unat off) mod 2 ^ 32) mod unat lim"
proof -
  let ?v = "(of_nat i + off) mod lim"
  have u: "unat ?v = ((i + unat off) mod 2 ^ 32) mod unat lim"
    using assms by (rule key_unat)
  have "sint ?v = int (unat ?v) - 2 ^ 32 \<longleftrightarrow> 2 ^ 31 - 1 < unat ?v"
    unfolding sint_uint32 by (rule signed_val_wrapped_iff)
  then show ?thesis
    unfolding key_cell_def u by simp
qed

lemma key_cell_inj:
  assumes "i < 2 ^ 32" and "j < 2 ^ 32" and "key_cell off lim i = key_cell off lim j"
  shows "((i + unat off) mod 2 ^ 32) mod unat lim = ((j + unat off) mod 2 ^ 32) mod unat lim"
proof -
  let ?a = "(of_nat i + off) mod lim" and ?b = "(of_nat j + off) mod lim"
  have ba: "unat ?a < 2 ^ 32" using unsigned_less [of ?a, where ?'a = nat] by simp
  have bb: "unat ?b < 2 ^ 32" using unsigned_less [of ?b, where ?'a = nat] by simp
  from assms(3) have "sint ?a = sint ?b" by (simp add: key_cell_def)
  then have "unat ?a = unat ?b"
    unfolding sint_uint32 by (rule signed_val_inj [OF ba bb])
  then show ?thesis
    unfolding key_unat [OF assms(1)] key_unat [OF assms(2)] .
qed

lemma keys_collide_on_wrap:
  fixes n off lim :: nat
  assumes "off < lim" and "lim < 2 ^ 32" and "2 ^ 32 < n + off"
  shows "lim - off < 2 ^ 32 - off" and "2 ^ 32 - off < n"
    and "((lim - off + off) mod 2 ^ 32) mod lim = 0"
    and "((2 ^ 32 - off + off) mod 2 ^ 32) mod lim = 0"
  using assms by simp_all

text \<open>
  C1 (as amended). On a table without an index column whose limit is not zero, the ingest
  of a fresh batch of fewer than \<open>2^32\<close> rows returns, when the table is bound to a
  node or has not been bound yet. When an ingest returns, the batch has fewer than
  \<open>2^32\<close> rows and the row at position \<open>i\<close> has the same primary key and original
  key: the value of \<^verbatim>\<open>(ridx + m_offset) % m_limit\<close> in 32 bits, stored as a signed 32-bit
  integer, for the offset the table had before the call; it depends on the position, the
  offset and the limit only. The key is \<open>(i + offset) mod limit\<close> exactly when
  \<open>((i + offset) mod 2^32) mod limit\<close> is that number and it is below \<open>2^31\<close>. When
  the batch has fewer rows than the limit, its keys are pairwise distinct if the rows plus
  the offset do not exceed \<open>2^32\<close>, and they are not if the offset is below the limit
  and the rows plus the offset exceed \<open>2^32\<close>. The batch with these columns is the one
  sent to the pool.
\<close>

theorem synthesized_keys:
  assumes "m_index t = []"
  shows "(m_limit t \<noteq> 0 \<and> dt_size dt < 2 ^ 32 \<and> fresh_batch dt \<and> node_usable t w \<longrightarrow>
            (\<exists>t' w' dt'. init t w dt rc op = Some (Inr (t', w', dt')))) \<and>
         (init t w dt rc op = Some (Inr (t', w', dt')) \<longrightarrow>
            dt_size dt < 2 ^ 32 \<and>
            (\<exists>kc oc.
               map_of (dt_columns dt') ''psp_pkey'' = Some kc \<and>
               map_of (dt_columns dt') ''psp_okey'' = Some oc \<and>
               (\<forall>i<dt_size dt.
                  col_data oc ! i = col_data kc ! i \<and>
                  col_data kc ! i = key_cell (m_offset t) (m_limit t) i \<and>
                  (col_data kc ! i = S_INT32 (int ((i + unat (m_offset t)) mod unat (m_limit t))) \<longleftrightarrow>
                     ((i + unat (m_offset t)) mod 2 ^ 32) mod unat (m_limit t) =
                       (i + unat (m_offset t)) mod unat (m_limit t) \<and>
                     (i + unat (m_offset t)) mod unat (m_limit t) < 2 ^ 31)) \<and>
               (dt_size dt < unat (m_limit t) \<and> dt_size dt + unat (m_offset t) \<le> 2 ^ 32 \<longrightarrow>
                  distinct (take (dt_size dt) (col_data kc))) \<and>
               (dt_size dt < unat (m_limit t) \<and> unat (m_offset t) < unat (m_limit t) \<and>
                2 ^ 32 < dt_size dt + unat (m_offset t) \<longrightarrow>
                  \<not> distinct (take (dt_size dt) (col_data kc)))) \<and>
            (\<exists>g. gnode_at w' (m_gnode t') = Inr g \<and>
                 last (pool_log (w_pool w')) = EvSend (gn_id g) 0 dt'))"
proof (intro conjI impI)
  assume "m_limit t \<noteq> 0 \<and> dt_size dt < 2 ^ 32 \<and> fresh_batch dt \<and> node_usable t w"
  then show "\<exists>t' w' dt'. init t w dt rc op = Some (Inr (t', w', dt'))"
    using assms by (intro init_returns) simp_all
next
  assume ok: "init t w dt rc op = Some (Inr (t', w', dt'))"
  then show "\<exists>g. gnode_at w' (m_gnode t') = Inr g \<and>
                 last (pool_log (w_pool w')) = EvSend (gn_id g) 0 dt'"
    by (rule init_sent)
  let ?off = "unat (m_offset t)" and ?lim = "unat (m_limit t)" and ?n = "dt_size dt"
  let ?cell = "key_cell (m_offset t) (m_limit t)"
  from init_synth [OF assms ok] obtain kc oc where
    k: "map_of (dt_columns dt') ''psp_pkey'' = Some kc"
    and o: "map_of (dt_columns dt') ''psp_okey'' = Some oc"
    and rows: "\<forall>i<?n. i < length (col_data kc) \<and> col_data kc ! i = ?cell i \<and>
              i < length (col_data oc) \<and> col_data oc ! i = ?cell i"
    by (elim exE conjE) (rule that; assumption)
  have "process_index_column t (process_op_column dt op) = Some (Inr dt')"
    using ok by (rule init_Inr)
  from process_index_column_synth [OF assms this]
  have n: "?n < 2 ^ 32" by (auto simp: process_op_column_frame)
  then show "dt_size dt < 2 ^ 32" .
  have vals: "\<forall>i<?n. col_data oc ! i = col_data kc ! i \<and>
                  col_data kc ! i = ?cell i \<and>
                  (col_data kc ! i = S_INT32 (int ((i + ?off) mod ?lim)) \<longleftrightarrow>
                     ((i + ?off) mod 2 ^ 32) mod ?lim = (i + ?off) mod ?lim \<and>
                     (i + ?off) mod ?lim < 2 ^ 31)"
  proof (intro allI impI)
    fix i assume i: "i < ?n"
    with n have "i < 2 ^ 32" by simp
    from key_cell_eq_iff [OF this, of "m_offset t" "m_limit t" "(i + ?off) mod ?lim"] rows i
    show "col_data oc ! i = col_data kc ! i \<and>
                  col_data kc ! i = ?cell i \<and>
                  (col_data kc ! i = S_INT32 (int ((i + ?off) mod ?lim)) \<longleftrightarrow>
                     ((i + ?off) mod 2 ^ 32) mod ?lim = (i + ?off) mod ?lim \<and>
                     (i + ?off) mod ?lim < 2 ^ 31)"
      by simp
  qed
  have len: "length (take ?n (col_data kc)) = ?n"
  proof (cases ?n)
    case 0
    then show ?thesis by simp
  next
    case (Suc m)
    with rows have "m < length (col_data kc)" by simp
    with Suc show ?thesis by simp
  qed
  have nth: "take ?n (col_data kc) ! i = ?cell i" if "i < ?n" for i
    using that rows by simp
  have dist: "?n < ?lim \<and> ?n + ?off \<le> 2 ^ 32 \<longrightarrow> distinct (take ?n (col_data kc))"
    unfolding distinct_conv_nth len
  proof (intro allI impI)
    assume small: "?n < ?lim \<and> ?n + ?off \<le> 2 ^ 32"
    fix i j assume i: "i < ?n" and j: "j < ?n" and ne: "i \<noteq> j"
    have "?cell i \<noteq> ?cell j"
    proof
      assume "?cell i = ?cell j"
      moreover have "i < 2 ^ 32" "j < 2 ^ 32" using i j n by simp_all
      ultimately have "((i + ?off) mod 2 ^ 32) mod ?lim = ((j + ?off) mod 2 ^ 32) mod ?lim"
        by (intro key_cell_inj)
      moreover have "i + ?off < 2 ^ 32" "j + ?off < 2 ^ 32" using i j small by simp_all
      ultimately have "(i + ?off) mod ?lim = (j + ?off) mod ?lim" by simp
      from ring_inj [OF i j _ this] small ne show False by simp
    qed
    then show "take ?n (col_data kc) ! i \<noteq> take ?n (col_data kc) ! j"
      using nth i j by simp
  qed
  have coll: "?n < ?lim \<and> ?off < ?lim \<and> 2 ^ 32 < ?n + ?off \<longrightarrow>
      \<not> distinct (take ?n (col_data kc))"
  proof
    assume wrap: "?n < ?lim \<and> ?off < ?lim \<and> 2 ^ 32 < ?n + ?off"
    have l: "?lim < 2 ^ 32" using unsigned_less [of "m_limit t", where ?'a = nat] by simp
    let ?i = "?lim - ?off" and ?j = "2 ^ 32 - ?off"
    from wrap l have a: "?off < ?lim" "?lim < 2 ^ 32" "2 ^ 32 < ?n + ?off" by simp_all
    have ij: "?i < ?j" and j: "?j < ?n"
      and zi: "((?i + ?off) mod 2 ^ 32) mod ?lim = 0"
      and zj: "((?j + ?off) mod 2 ^ 32) mod ?lim = 0"
      by (rule keys_collide_on_wrap [OF a])+
    have i: "?i < ?n" using ij j by simp
    have "?i < 2 ^ 32" "?j < 2 ^ 32" using i j n by simp_all
    then have "?cell ?i = S_INT32 (int 0)" "?cell ?j = S_INT32 (int 0)"
      using zi zj by (simp_all only: key_cell_eq_iff) simp_all
    then have "take ?n (col_data kc) ! ?i = take ?n (col_data kc) ! ?j"
      using nth [OF i] nth [OF j] by simp
    moreover have "?i < length (take ?n (col_data kc))" "?j < length (take ?n (col_data kc))"
      using i j len by simp_all
    moreover from ij have "?i \<noteq> ?j" by simp
    ultimately show "\<not> distinct (take ?n (col_data kc))"
      unfolding distinct_conv_nth by blast
  qed
  show "\<exists>kc oc.
               map_of (dt_columns dt') ''psp_pkey'' = Some kc \<and>
               map_of (dt_columns dt') ''psp_okey'' = Some oc \<and>
               (\<forall>i<dt_size dt.
                  col_data oc ! i = col_data kc ! i \<and>
                  col_data kc ! i = key_cell (m_offset t) (m_limit t) i \<and>
                  (col_data kc ! i = S_INT32 (int ((i + unat (m_offset t)) mod unat (m_limit t))) \<longleftrightarrow>
                     ((i + unat (m_offset t)) mod 2 ^ 32) mod unat (m_limit t) =
                       (i + unat (m_offset t)) mod unat (m_limit t) \<and>
                     (i + unat (m_offset t)) mod unat (m_limit t) < 2 ^ 31)) \<and>
               (dt_size dt < unat (m_limit t) \<and> dt_size dt + unat (m_offset t) \<le> 2 ^ 32 \<longrightarrow>
                  distinct (take (dt_size dt) (col_data kc))) \<and>
               (dt_size dt < unat (m_limit t) \<and> unat (m_offset t) < unat (m_limit t) \<and>
                2 ^ 32 < dt_size dt + unat (m_offset t) \<longrightarrow>
                  \<not> distinct (take (dt_size dt) (col_data kc)))"
    by (rule exI [of _ kc], rule exI [of _ oc]) (intro conjI; fact)
qed

theorem synthesized_keys_witness:
  "(\<exists>t' w' dt' kc oc.
      init ((new_table 0 0xFFFFFFFF [])\<lparr>m_offset := 3\<rparr>) world0
        (batch [(''x'', [7, 7, 8, 9])] 4) 4 OP_INSERT = Some (Inr (t', w', dt')) \<and>
      map_of (dt_columns dt') ''psp_pkey'' = Some kc \<and>
      map_of (dt_columns dt') ''psp_okey'' = Some oc \<and>
      col_data kc ! 0 = S_INT32 3 \<and> col_data kc ! 1 = S_INT32 4 \<and>
      col_data kc ! 2 = S_INT32 5 \<and> col_data oc ! 3 = S_INT32 6 \<and>
      distinct (take 4 (col_data kc))) \<and>
   (\<exists>t' w' dt' kc.
      init ((new_table 0 0xFFFFFFFF [])\<lparr>m_offset := 0xFFFFFFFE\<rparr>) world0
        (batch [] 3) 3 OP_INSERT = Some (Inr (t', w', dt')) \<and>
      map_of (dt_columns dt') ''psp_pkey'' = Some kc \<and>
      \<not> distinct (take 3 (col_data kc)))"
proof (rule conjI)
  let ?t = "(new_table 0 0xFFFFFFFF [])\<lparr>m_offset := 3\<rparr>"
  let ?dt = "batch [(''x'', [7, 7, 8, 9])] 4"
  have e: "m_index ?t = []" by (simp add: new_table_def)
  have h: "m_limit ?t \<noteq> 0 \<and> dt_size ?dt < 2 ^ 32 \<and> fresh_batch ?dt \<and> node_usable ?t world0"
    by (simp add: new_table_def batch_def fresh_batch_def column_names_def node_usable_def)
  from synthesized_keys [OF e, of ?dt world0 4 OP_INSERT] h
  obtain t' w' dt' where i: "init ?t world0 ?dt 4 OP_INSERT = Some (Inr (t', w', dt'))"
    by blast
  note r = synthesized_keys [OF e, of ?dt world0 4 OP_INSERT t' w' dt',
      THEN conjunct2, THEN mp, OF i, THEN conjunct2, THEN conjunct1]
  from r obtain kc oc where k: "map_of (dt_columns dt') ''psp_pkey'' = Some kc"
    and o: "map_of (dt_columns dt') ''psp_okey'' = Some oc"
    and v: "\<forall>i<dt_size ?dt.
                  col_data oc ! i = col_data kc ! i \<and>
                  col_data kc ! i = key_cell (m_offset ?t) (m_limit ?t) i \<and>
                  (col_data kc ! i = S_INT32 (int ((i + unat (m_offset ?t)) mod unat (m_limit ?t))) \<longleftrightarrow>
                     ((i + unat (m_offset ?t)) mod 2 ^ 32) mod unat (m_limit ?t) =
                       (i + unat (m_offset ?t)) mod unat (m_limit ?t) \<and>
                     (i + unat (m_offset ?t)) mod unat (m_limit ?t) < 2 ^ 31)"
    and d: "dt_size ?dt < unat (m_limit ?t) \<and> dt_size ?dt + unat (m_offset ?t) \<le> 2 ^ 32 \<longrightarrow>
                  distinct (take (dt_size ?dt) (col_data kc))"
    by (elim exE conjE) (rule that; assumption)
  have s: "dt_size ?dt = 4" "unat (m_offset ?t) = 3" "unat (m_limit ?t) = 4294967295"
    by (simp_all add: batch_def new_table_def)
  have q: "col_data oc ! i = col_data kc ! i \<and>
      (col_data kc ! i = S_INT32 (int ((i + 3) mod 4294967295)) \<longleftrightarrow>
         ((i + 3) mod 2 ^ 32) mod 4294967295 = (i + 3) mod 4294967295 \<and>
         (i + 3) mod 4294967295 < 2 ^ 31)" if "i < 4" for i
    using v that unfolding s by blast
  from q [of 0] q [of 1] q [of 2] q [of 3]
  have "col_data kc ! 0 = S_INT32 3" "col_data kc ! 1 = S_INT32 4"
    "col_data kc ! 2 = S_INT32 5" "col_data oc ! 3 = S_INT32 6"
    by simp_all
  moreover from d have "distinct (take 4 (col_data kc))" unfolding s by simp
  ultimately show "\<exists>t' w' dt' kc oc.
      init ((new_table 0 0xFFFFFFFF [])\<lparr>m_offset := 3\<rparr>) world0
        (batch [(''x'', [7, 7, 8, 9])] 4) 4 OP_INSERT = Some (Inr (t', w', dt')) \<and>
      map_of (dt_columns dt') ''psp_pkey'' = Some kc \<and>
      map_of (dt_columns dt') ''psp_okey'' = Some oc \<and>
      col_data kc ! 0 = S_INT32 3 \<and> col_data kc ! 1 = S_INT32 4 \<and>
      col_data kc ! 2 = S_INT32 5 \<and> col_data oc ! 3 = S_INT32 6 \<and>
      distinct (take 4 (col_data kc))"
    using i k o by blast
next
  let ?t = "(new_table 0 0xFFFFFFFF [])\<lparr>m_offset := 0xFFFFFFFE\<rparr>"
  let ?dt = "batch [] 3"
  have e: "m_index ?t = []" by (simp add: new_table_def)
  have h: "m_limit ?t \<noteq> 0 \<and> dt_size ?dt < 2 ^ 32 \<and> fresh_batch ?dt \<and> node_usable ?t world0"
    by (simp add: new_table_def batch_def fresh_batch_def column_names_def node_usable_def)
  from synthesized_keys [OF e, of ?dt world0 3 OP_INSERT] h
  obtain t' w' dt' where i: "init ?t world0 ?dt 3 OP_INSERT = Some (Inr (t', w', dt'))"
    by blast
  note r = synthesized_keys [OF e, of ?dt world0 3 OP_INSERT t' w' dt',
      THEN conjunct2, THEN mp, OF i, THEN conjunct2, THEN conjunct1]
  from r obtain kc where k: "map_of (dt_columns dt') ''psp_pkey'' = Some kc"
    and d: "dt_size ?dt < unat (m_limit ?t) \<and> unat (m_offset ?t) < unat (m_limit ?t) \<and>
            2 ^ 32 < dt_size ?dt + unat (m_offset ?t) \<longrightarrow>
              \<not> distinct (take (dt_size ?dt) (col_data kc))"
    by (elim exE conjE) (rule that; assumption)
  have s: "dt_size ?dt = 3" "unat (m_offset ?t) = 4294967294" "unat (m_limit ?t) = 4294967295"
    by (simp_all add: batch_def new_table_def)
  from d have "\<not> distinct (take 3 (col_data kc))" unfolding s by simp
  with i k show "\<exists>t' w' dt' kc.
      init ((new_table 0 0xFFFFFFFF [])\<lparr>m_offset := 0xFFFFFFFE\<rparr>) world0
        (batch [] 3) 3 OP_INSERT = Some (Inr (t', w', dt')) \<and>
      map_of (dt_columns dt') ''psp_pkey'' = Some kc \<and>
      \<not> distinct (take 3 (col_data kc))"
    by blast
qed

text \<open>
  The claim as stated fails on a table with the largest limit once its offset is
  \<open>2^32 - 2\<close>: in a batch of three rows the first key is stored as \<open>-2\<close>, not
  as \<open>(0 + (2^32 - 2)) mod (2^32 - 1)\<close>, and the second and third keys are both 0.
\<close>

theorem synthesized_keys_counterexample:
  "calculate_offset (new_table 0 0xFFFFFFFF []) 0xFFFFFFFE =
     Inr ((new_table 0 0xFFFFFFFF [])\<lparr>m_offset := 0xFFFFFFFE\<rparr>) \<and>
   process_index_column ((new_table 0 0xFFFFFFFF [])\<lparr>m_offset := 0xFFFFFFFE\<rparr>) (batch [] 3) =
     Some (Inr \<lparr>dt_columns =
       [(''psp_pkey'', \<lparr>col_dtype = DTYPE_INT32, col_status_enabled = True,
                        col_data = [S_INT32 (- 2), S_INT32 0, S_INT32 0]\<rparr>),
        (''psp_okey'', \<lparr>col_dtype = DTYPE_INT32, col_status_enabled = True,
                        col_data = [S_INT32 (- 2), S_INT32 0, S_INT32 0]\<rparr>)],
       dt_size = 3\<rparr>) \<and>
   (0 + unat (0xFFFFFFFE :: uint32)) mod unat (0xFFFFFFFF :: uint32) = 4294967294"
proof (intro conjI)
  show "calculate_offset (new_table 0 0xFFFFFFFF []) 0xFFFFFFFE =
     Inr ((new_table 0 0xFFFFFFFF [])\<lparr>m_offset := 0xFFFFFFFE\<rparr>)"
    by (simp add: calculate_offset_def new_table_def)
  show "process_index_column ((new_table 0 0xFFFFFFFF [])\<lparr>m_offset := 0xFFFFFFFE\<rparr>) (batch [] 3) =
     Some (Inr \<lparr>dt_columns =
       [(''psp_pkey'', \<lparr>col_dtype = DTYPE_INT32, col_status_enabled = True,
                        col_data = [S_INT32 (- 2), S_INT32 0, S_INT32 0]\<rparr>),
        (''psp_okey'', \<lparr>col_dtype = DTYPE_INT32, col_status_enabled = True,
                        col_data = [S_INT32 (- 2), S_INT32 0, S_INT32 0]\<rparr>)],
       dt_size = 3\<rparr>)"
    by code_simp
  show "(0 + unat (0xFFFFFFFE :: uint32)) mod unat (0xFFFFFFFF :: uint32) = 4294967294"
    by simp
qed

text \<open>
  C10 (as amended). The synthesized keys are written with \<^verbatim>\<open>set_nth<std::int32_t>\<close> into
  columns created with type \<open>DTYPE_INT32\<close>, while the limit is an unsigned 32-bit
  integer. On a table without an index column whose limit is not zero, the ingest of a
  fresh batch of fewer than \<open>2^32\<close> rows returns, when the table is bound to a node or
  has not been bound yet. When an ingest returns, the two key columns agree in every row
  \<open>i\<close> of the batch and, for the 32-bit value \<open>k = ((i + offset) mod 2^32) mod limit\<close>
  of \<^verbatim>\<open>(ridx + m_offset) % m_limit\<close>: the row holds \<open>k - 2^32\<close> exactly when \<open>k\<close> is
  above \<open>2^31 - 1\<close>, which needs a limit above \<open>2^31\<close> and gives a negative number; it
  holds \<open>k\<close> exactly when \<open>k\<close> is below \<open>2^31\<close>; and \<open>k\<close> is
  \<open>(i + offset) mod limit\<close> when \<open>i + offset\<close> is below \<open>2^32\<close>.
\<close>

theorem keys_wrap_negative:
  assumes "m_index t = []"
  shows "(m_limit t \<noteq> 0 \<and> dt_size dt < 2 ^ 32 \<and> fresh_batch dt \<and> node_usable t w \<longrightarrow>
            (\<exists>t' w' dt'. init t w dt rc op = Some (Inr (t', w', dt')))) \<and>
         (init t w dt rc op = Some (Inr (t', w', dt')) \<and> i < dt_size dt \<longrightarrow>
            (\<exists>kc oc.
               map_of (dt_columns dt') ''psp_pkey'' = Some kc \<and>
               map_of (dt_columns dt') ''psp_okey'' = Some oc \<and>
               col_data oc ! i = col_data kc ! i \<and>
               (col_data kc ! i =
                  S_INT32 (int (((i + unat (m_offset t)) mod 2 ^ 32) mod unat (m_limit t)) - 2 ^ 32) \<longleftrightarrow>
                  2 ^ 31 - 1 < ((i + unat (m_offset t)) mod 2 ^ 32) mod unat (m_limit t)) \<and>
               (col_data kc ! i =
                  S_INT32 (int (((i + unat (m_offset t)) mod 2 ^ 32) mod unat (m_limit t))) \<longleftrightarrow>
                  ((i + unat (m_offset t)) mod 2 ^ 32) mod unat (m_limit t) < 2 ^ 31) \<and>
               (2 ^ 31 - 1 < ((i + unat (m_offset t)) mod 2 ^ 32) mod unat (m_limit t) \<longrightarrow>
                  2 ^ 31 < unat (m_limit t) \<and>
                  int (((i + unat (m_offset t)) mod 2 ^ 32) mod unat (m_limit t)) - 2 ^ 32 < 0) \<and>
               (i + unat (m_offset t) < 2 ^ 32 \<longrightarrow>
                  ((i + unat (m_offset t)) mod 2 ^ 32) mod unat (m_limit t) =
                    (i + unat (m_offset t)) mod unat (m_limit t)) \<and>
               (map_of (dt_columns dt) ''psp_pkey'' = None \<longrightarrow> col_dtype kc = DTYPE_INT32) \<and>
               (map_of (dt_columns dt) ''psp_okey'' = None \<longrightarrow> col_dtype oc = DTYPE_INT32)))"
proof (intro conjI impI)
  assume "m_limit t \<noteq> 0 \<and> dt_size dt < 2 ^ 32 \<and> fresh_batch dt \<and> node_usable t w"
  then show "\<exists>t' w' dt'. init t w dt rc op = Some (Inr (t', w', dt'))"
    using assms by (intro init_returns) simp_all
next
  assume a: "init t w dt rc op = Some (Inr (t', w', dt')) \<and> i < dt_size dt"
  then have ok: "init t w dt rc op = Some (Inr (t', w', dt'))" and i: "i < dt_size dt"
    by simp_all
  let ?k = "((i + unat (m_offset t)) mod 2 ^ 32) mod unat (m_limit t)"
  from init_synth [OF assms ok] obtain kc oc where
    k: "map_of (dt_columns dt') ''psp_pkey'' = Some kc"
    and o: "map_of (dt_columns dt') ''psp_okey'' = Some oc"
    and lim: "m_limit t \<noteq> 0"
    and t1: "map_of (dt_columns dt) ''psp_pkey'' = None \<longrightarrow> col_dtype kc = DTYPE_INT32"
    and t2: "map_of (dt_columns dt) ''psp_okey'' = None \<longrightarrow> col_dtype oc = DTYPE_INT32"
    and rows: "\<forall>i<dt_size dt.
              i < length (col_data kc) \<and> col_data kc ! i = key_cell (m_offset t) (m_limit t) i \<and>
              i < length (col_data oc) \<and> col_data oc ! i = key_cell (m_offset t) (m_limit t) i"
    by (elim exE conjE) (rule that; assumption)
  have "process_index_column t (process_op_column dt op) = Some (Inr dt')"
    using ok by (rule init_Inr)
  from process_index_column_synth [OF assms this]
  have "dt_size dt < 2 ^ 32" by (auto simp: process_op_column_frame)
  with i have i32: "i < 2 ^ 32" by simp
  from rows i have kc: "col_data kc ! i = key_cell (m_offset t) (m_limit t) i"
    and oc: "col_data oc ! i = key_cell (m_offset t) (m_limit t) i" by simp_all
  have c1: "col_data oc ! i = col_data kc ! i" by (simp add: kc oc)
  have c2: "col_data kc ! i = S_INT32 (int ?k - 2 ^ 32) \<longleftrightarrow> 2 ^ 31 - 1 < ?k"
    unfolding kc using i32 by (rule key_cell_wrapped_iff)
  have c3: "col_data kc ! i = S_INT32 (int ?k) \<longleftrightarrow> ?k < 2 ^ 31"
    unfolding kc using key_cell_eq_iff [OF i32, of "m_offset t" "m_limit t" ?k] by simp
  have pos: "0 < unat (m_limit t)" using lim by (simp add: unat_gt_0)
  then have kl: "?k < unat (m_limit t)" by simp
  have l32: "unat (m_limit t) < 2 ^ 32"
    using unsigned_less [of "m_limit t", where ?'a = nat] by simp
  have c4: "2 ^ 31 - 1 < ?k \<longrightarrow> 2 ^ 31 < unat (m_limit t) \<and> int ?k - 2 ^ 32 < 0"
    using kl l32 by auto
  have c5: "i + unat (m_offset t) < 2 ^ 32 \<longrightarrow> ?k = (i + unat (m_offset t)) mod unat (m_limit t)"
    by simp
  show "\<exists>kc oc.
               map_of (dt_columns dt') ''psp_pkey'' = Some kc \<and>
               map_of (dt_columns dt') ''psp_okey'' = Some oc \<and>
               col_data oc ! i = col_data kc ! i \<and>
               (col_data kc ! i = S_INT32 (int ?k - 2 ^ 32) \<longleftrightarrow> 2 ^ 31 - 1 < ?k) \<and>
               (col_data kc ! i = S_INT32 (int ?k) \<longleftrightarrow> ?k < 2 ^ 31) \<and>
               (2 ^ 31 - 1 < ?k \<longrightarrow> 2 ^ 31 < unat (m_limit t) \<and> int ?k - 2 ^ 32 < 0) \<and>
               (i + unat (m_offset t) < 2 ^ 32 \<longrightarrow> ?k = (i + unat (m_offset t)) mod unat (m_limit t)) \<and>
               (map_of (dt_columns dt) ''psp_pkey'' = None \<longrightarrow> col_dtype kc = DTYPE_INT32) \<and>
               (map_of (dt_columns dt) ''psp_okey'' = None \<longrightarrow> col_dtype oc = DTYPE_INT32)"
    by (rule exI [of _ kc], rule exI [of _ oc]) (intro conjI; fact)
qed

theorem keys_wrap_negative_witness:
  "\<exists>t' w' dt' kc oc.
     init ((new_table 0 0xFFFFFFFF [])\<lparr>m_offset := 0x80000000\<rparr>) world0 (batch [] 1) 1 OP_INSERT
       = Some (Inr (t', w', dt')) \<and>
     map_of (dt_columns dt') ''psp_pkey'' = Some kc \<and>
     map_of (dt_columns dt') ''psp_okey'' = Some oc \<and>
     col_data kc ! 0 = S_INT32 (- 2147483648) \<and> col_data oc ! 0 = S_INT32 (- 2147483648) \<and>
     col_dtype kc = DTYPE_INT32 \<and> col_dtype oc = DTYPE_INT32"
proof -
  let ?t = "(new_table 0 0xFFFFFFFF [])\<lparr>m_offset := 0x80000000\<rparr>"
  let ?dt = "batch [] 1"
  have e: "m_index ?t = []" by (simp add: new_table_def)
  have h: "m_limit ?t \<noteq> 0 \<and> dt_size ?dt < 2 ^ 32 \<and> fresh_batch ?dt \<and> node_usable ?t world0"
    by (simp add: new_table_def batch_def fresh_batch_def column_names_def node_usable_def)
  from keys_wrap_negative [OF e, of ?dt world0 1 OP_INSERT] h
  obtain t' w' dt' where i: "init ?t world0 ?dt 1 OP_INSERT = Some (Inr (t', w', dt'))"
    by blast
  have j: "init ?t world0 ?dt 1 OP_INSERT = Some (Inr (t', w', dt')) \<and> 0 < dt_size ?dt"
    using i by (simp add: batch_def)
  note r = keys_wrap_negative [OF e, of ?dt world0 1 OP_INSERT t' w' dt' 0,
      THEN conjunct2, THEN mp, OF j]
  have s: "unat (m_offset ?t) = 2147483648" "unat (m_limit ?t) = 4294967295"
    "map_of (dt_columns ?dt) ''psp_pkey'' = None" "map_of (dt_columns ?dt) ''psp_okey'' = None"
    by (simp_all add: batch_def new_table_def)
  from r obtain kc oc where "map_of (dt_columns dt') ''psp_pkey'' = Some kc"
    "map_of (dt_columns dt') ''psp_okey'' = Some oc"
    "col_data oc ! 0 = col_data kc ! 0"
    "col_data kc ! 0 = S_INT32 (- 2147483648)"
    "col_dtype kc = DTYPE_INT32" "col_dtype oc = DTYPE_INT32"
    unfolding s by (elim exE conjE) (rule that; simp)
  with i show ?thesis by auto
qed

text \<open>
  The claim as stated fails where the 32-bit sum \<^verbatim>\<open>ridx + m_offset\<close> wraps: on a table
  with the largest limit and offset \<open>2^32 - 2\<close>, the row at position \<open>2^31 + 1\<close> of a
  batch has \<open>(i + offset) mod limit = 2^31\<close>, above \<open>2^31 - 1\<close>, and its primary key
  is stored as \<open>2^31 - 1\<close>, not as \<open>2^31 - 2^32\<close>.
\<close>

theorem keys_wrap_negative_counterexample:
  "calculate_offset (new_table 0 0xFFFFFFFF []) 0xFFFFFFFE =
     Inr ((new_table 0 0xFFFFFFFF [])\<lparr>m_offset := 0xFFFFFFFE\<rparr>) \<and>
   stored_cell (init ((new_table 0 0xFFFFFFFF [])\<lparr>m_offset := 0xFFFFFFFE\<rparr>) world0
                 (batch [] 2147483650) 2147483650 OP_INSERT) ''psp_pkey'' 2147483649
     = Some (S_INT32 2147483647) \<and>
   (2147483649 + unat (0xFFFFFFFE :: uint32)) mod unat (0xFFFFFFFF :: uint32) = 2147483648 \<and>
   (2 :: nat) ^ 31 - 1 < 2147483648 \<and>
   S_INT32 2147483647 \<noteq> S_INT32 (2147483648 - 2 ^ 32)"
proof (intro conjI)
  let ?t = "(new_table 0 0xFFFFFFFF [])\<lparr>m_offset := 0xFFFFFFFE\<rparr>"
  let ?dt = "batch [] 2147483650"
  show "calculate_offset (new_table 0 0xFFFFFFFF []) 0xFFFFFFFE = Inr ?t"
    by (simp add: calculate_offset_def new_table_def)
  show "(2147483649 + unat (0xFFFFFFFE :: uint32)) mod unat (0xFFFFFFFF :: uint32) = 2147483648"
    by simp
  show "(2 :: nat) ^ 31 - 1 < 2147483648" by simp
  show "S_INT32 2147483647 \<noteq> S_INT32 (2147483648 - 2 ^ 32)" by simp
  have e: "m_index ?t = []" by (simp add: new_table_def)
  have s: "dt_size ?dt = 2147483650" "unat (m_offset ?t) = 4294967294"
    "unat (m_limit ?t) = 4294967295"
    by (simp_all add: batch_def new_table_def)
  have "\<exists>t' w' dt'. init ?t world0 ?dt 2147483650 OP_INSERT = Some (Inr (t', w', dt'))"
    by (rule init_returns)
      (simp_all add: new_table_def batch_def fresh_batch_def column_names_def node_usable_def)
  then obtain t' w' dt' where i: "init ?t world0 ?dt 2147483650 OP_INSERT = Some (Inr (t', w', dt'))"
    by blast
  from init_synth [OF e i] obtain kc where
    k: "map_of (dt_columns dt') ''psp_pkey'' = Some kc"
    and rows: "\<forall>i<dt_size ?dt.
              i < length (col_data kc) \<and> col_data kc ! i = key_cell (m_offset ?t) (m_limit ?t) i"
    by auto
  from rows have len: "2147483649 < length (col_data kc)"
    and c: "col_data kc ! 2147483649 = key_cell (m_offset ?t) (m_limit ?t) 2147483649"
    unfolding s by simp_all
  have "key_cell (m_offset ?t) (m_limit ?t) 2147483649 = S_INT32 (int 2147483647)"
    by (subst key_cell_eq_iff) (simp_all add: new_table_def)
  with c have "col_data kc ! 2147483649 = S_INT32 2147483647" by simp
  with len k i show "stored_cell (init ?t world0 ?dt 2147483650 OP_INSERT) ''psp_pkey'' 2147483649
     = Some (S_INT32 2147483647)"
    by (simp add: stored_cell_def)
qed

section \<open>Accessors after an ingest\<close>











end
